theory Spec2Isabelle
  imports Main "HOL-Library.Multiset" "HOL-Library.Word"
begin

section \<open>The input matrix\<close>

text \<open>
  \<^verbatim>\<open>adj = np.matrix([[...], ...])\<close>, \<^verbatim>\<open>n = np.shape(adj)[0]\<close>.
  The matrix is the list of its rows, all of one length. numpy keeps one dtype for the
  whole matrix, and for Python integers that fit 64 bits it is the signed 64-bit integer:
  the entries are 64-bit words, read as signed values. The empty list gives a matrix of
  shape (1, 0), so \<open>n\<close> is 1 for it and the number of rows otherwise. An index pair
  outside the array raises IndexError, so a read is a value of a sum type.
\<close>

type_synonym matrix = "64 word list list"

datatype py_error = IndexError | AttributeError

definition shape0 :: "matrix \<Rightarrow> nat" where
  "shape0 adj = (if adj = [] then 1 else length adj)"

definition entry :: "matrix \<Rightarrow> nat \<Rightarrow> nat \<Rightarrow> int" where
  "entry adj i j = sint (adj ! i ! j)"

definition at :: "matrix \<Rightarrow> nat \<Rightarrow> nat \<Rightarrow> py_error + int" where
  "at adj i j =
     (if i < length adj \<and> j < length (adj ! i) then Inr (entry adj i j) else Inl IndexError)"

text \<open>
  \<^verbatim>\<open>print(adj)\<close>: numpy prints every entry of a matrix of at most 1000 entries;
  of a larger one it prints, along each axis longer than 6, the first 3 and the last 3
  items. The printed text is stood for by the matrix of the entries it shows.
\<close>

definition abridge :: "'a list \<Rightarrow> 'a list" where
  "abridge xs = (if 6 < length xs then take 3 xs @ drop (length xs - 3) xs else xs)"

definition echo :: "matrix \<Rightarrow> matrix" where
  "echo adj = (if 1000 < length (concat adj) then map abridge (abridge adj) else adj)"

section \<open>Solver expressions and assertions\<close>

text \<open>
  The terms built by the script: integer literals, applications of the two uninterpreted
  functions \<^verbatim>\<open>P\<close> and \<^verbatim>\<open>t\<close>, and \<^verbatim>\<open>+\<close>; the
  assertions are comparisons combined by \<^verbatim>\<open>And\<close> and \<^verbatim>\<open>Or\<close>.
\<close>

datatype expr = IntVal int | Papp expr | tapp expr | Add expr expr

datatype constr =
    Eq expr expr
  | Ne expr expr
  | Le expr expr
  | Ge expr expr
  | And constr constr
  | Or constr constr

text \<open>
  \<^verbatim>\<open>Or(And(P(t(k))==i, P(t(k)+1)==j), And(P(t(k))==j, P(t(k)+1)==i))\<close>
\<close>

definition edge_constraint :: "nat \<Rightarrow> nat \<Rightarrow> nat \<Rightarrow> constr" where
  "edge_constraint k i j =
     Or (And (Eq (Papp (tapp (IntVal (int k)))) (IntVal (int i)))
             (Eq (Papp (Add (tapp (IntVal (int k))) (IntVal 1))) (IntVal (int j))))
        (And (Eq (Papp (tapp (IntVal (int k)))) (IntVal (int j)))
             (Eq (Papp (Add (tapp (IntVal (int k))) (IntVal 1))) (IntVal (int i))))"

section \<open>The encoder\<close>

text \<open>
  The state threaded through the loops: the list of assertions of the solver \<^verbatim>\<open>s\<close>
  (\<^verbatim>\<open>s.add\<close> appends) and the counter \<^verbatim>\<open>k\<close>.
\<close>

type_synonym state = "constr list \<times> nat"

text \<open>
  \<^verbatim>\<open>for g in range(adj[i,j]): s.add(...); k += 1\<close>, the first argument being the
  number of iterations.
\<close>

fun g_loop :: "nat \<Rightarrow> nat \<Rightarrow> nat \<Rightarrow> state \<Rightarrow> state" where
  "g_loop 0 i j st = st"
| "g_loop (Suc g) i j (s, k) = g_loop g i j (s @ [edge_constraint k i j], Suc k)"

text \<open>
  \<^verbatim>\<open>for j in range(i,n): if adj[i,j] != 0: for g in range(adj[i,j]): ...\<close>
  A negative entry passes the test and gives an empty range.
\<close>

fun j_loop :: "matrix \<Rightarrow> nat \<Rightarrow> nat list \<Rightarrow> state \<Rightarrow> py_error + state" where
  "j_loop adj i [] st = Inr st"
| "j_loop adj i (j # js) st =
     (case at adj i j of
        Inl e \<Rightarrow> Inl e
      | Inr a \<Rightarrow> j_loop adj i js (if a \<noteq> 0 then g_loop (nat a) i j st else st))"

fun i_loop :: "matrix \<Rightarrow> nat \<Rightarrow> nat list \<Rightarrow> state \<Rightarrow> py_error + state" where
  "i_loop adj n [] st = Inr st"
| "i_loop adj n (i # is) st =
     (case j_loop adj i [i..<n] st of
        Inl e \<Rightarrow> Inl e
      | Inr st' \<Rightarrow> i_loop adj n is st')"

text \<open>
  \<^verbatim>\<open>for j in range(k): if i==j: continue; s.add(t(i)!=t(j))\<close>
\<close>

fun distinct_loop :: "nat \<Rightarrow> nat list \<Rightarrow> constr list \<Rightarrow> constr list" where
  "distinct_loop i [] s = s"
| "distinct_loop i (j # js) s =
     (if i = j then distinct_loop i js s
      else distinct_loop i js
             (s @ [Ne (tapp (IntVal (int i))) (tapp (IntVal (int j)))]))"

text \<open>
  \<^verbatim>\<open>for i in range(k): s.add(t(i)<=(k-1),t(i)>=0); for j in range(k): ...\<close>
\<close>

fun range_loop :: "nat \<Rightarrow> nat list \<Rightarrow> constr list \<Rightarrow> constr list" where
  "range_loop k [] s = s"
| "range_loop k (i # is) s =
     range_loop k is
       (distinct_loop i [0..<k]
          (s @ [Le (tapp (IntVal (int i))) (IntVal (int k - 1)),
                Ge (tapp (IntVal (int i))) (IntVal 0)]))"

text \<open>Lines 43 to 55 of the script: both loop nests, from the empty solver and \<open>k = 0\<close>.\<close>

definition encode :: "matrix \<Rightarrow> py_error + state" where
  "encode adj =
     (case i_loop adj (shape0 adj) [0..<shape0 adj] ([], 0) of
        Inl e \<Rightarrow> Inl e
      | Inr (s, k) \<Rightarrow> Inr (range_loop k [0..<k] s, k))"

section \<open>Models and the rest of the script\<close>

text \<open>
  The solver is an external collaborator. What it searches for is an interpretation of
  \<^verbatim>\<open>P\<close> and \<^verbatim>\<open>t\<close> as total functions on the integers that makes
  every assertion true.
\<close>

record model =
  P_of :: "int \<Rightarrow> int"
  t_of :: "int \<Rightarrow> int"

fun eval :: "model \<Rightarrow> expr \<Rightarrow> int" where
  "eval m (IntVal c) = c"
| "eval m (Papp a) = P_of m (eval m a)"
| "eval m (tapp a) = t_of m (eval m a)"
| "eval m (Add a b) = eval m a + eval m b"

fun holds :: "model \<Rightarrow> constr \<Rightarrow> bool" where
  "holds m (Eq a b) = (eval m a = eval m b)"
| "holds m (Ne a b) = (eval m a \<noteq> eval m b)"
| "holds m (Le a b) = (eval m a \<le> eval m b)"
| "holds m (Ge a b) = (eval m a \<ge> eval m b)"
| "holds m (And c d) = (holds m c \<and> holds m d)"
| "holds m (Or c d) = (holds m c \<or> holds m d)"

definition satisfies :: "model \<Rightarrow> constr list \<Rightarrow> bool" where
  "satisfies m cs = list_all (holds m) cs"

datatype check_result = sat | unsat | unknown

text \<open>
  \<^verbatim>\<open>m = s.model()\<close>: the model object holds an interpretation for the function
  symbols that occur in the assertions and for no other. So it interprets \<^verbatim>\<open>P\<close>
  exactly when some assertion applies \<^verbatim>\<open>P\<close>.
\<close>

fun expr_uses_P :: "expr \<Rightarrow> bool" where
  "expr_uses_P (IntVal c) = False"
| "expr_uses_P (Papp a) = True"
| "expr_uses_P (tapp a) = expr_uses_P a"
| "expr_uses_P (Add a b) = (expr_uses_P a \<or> expr_uses_P b)"

fun uses_P :: "constr \<Rightarrow> bool" where
  "uses_P (Eq a b) = (expr_uses_P a \<or> expr_uses_P b)"
| "uses_P (Ne a b) = (expr_uses_P a \<or> expr_uses_P b)"
| "uses_P (Le a b) = (expr_uses_P a \<or> expr_uses_P b)"
| "uses_P (Ge a b) = (expr_uses_P a \<or> expr_uses_P b)"
| "uses_P (And c d) = (uses_P c \<or> uses_P d)"
| "uses_P (Or c d) = (uses_P c \<or> uses_P d)"

record model_ref =
  interp :: model
  has_P :: bool

definition get_model :: "constr list \<Rightarrow> model \<Rightarrow> model_ref" where
  "get_model s m = \<lparr>interp = m, has_P = list_ex uses_P s\<rparr>"

text \<open>
  \<^verbatim>\<open>m.evaluate(P(i))\<close>, without model completion: the numeral of the value when
  the model interprets \<^verbatim>\<open>P\<close>, and the application itself, unchanged, when it
  does not. \<^verbatim>\<open>.as_long()\<close> exists on numerals only; on any other term the
  attribute lookup raises AttributeError.
\<close>

definition evaluate_P :: "model_ref \<Rightarrow> int \<Rightarrow> expr" where
  "evaluate_P mr i =
     (if has_P mr then IntVal (eval (interp mr) (Papp (IntVal i))) else Papp (IntVal i))"

fun as_long :: "expr \<Rightarrow> py_error + int" where
  "as_long (IntVal c) = Inr c"
| "as_long e = Inl AttributeError"

text \<open>
  \<^verbatim>\<open>results = []\<close>,
  \<^verbatim>\<open>for i in range(k+1): results.append(m.evaluate(P(i)).as_long())\<close>
\<close>

fun results_loop :: "model_ref \<Rightarrow> nat list \<Rightarrow> int list \<Rightarrow> py_error + int list" where
  "results_loop mr [] acc = Inr acc"
| "results_loop mr (i # is) acc =
     (case as_long (evaluate_P mr (int i)) of
        Inl e \<Rightarrow> Inl e
      | Inr v \<Rightarrow> results_loop mr is (acc @ [v]))"

definition results :: "model_ref \<Rightarrow> nat \<Rightarrow> py_error + int list" where
  "results mr k = results_loop mr [0..<k + 1] []"

text \<open>
  What one run of the script does. The matrix is printed first. An IndexError of the
  loops ends the run (\<open>Raised\<close>); otherwise the verdict \<open>r\<close> is printed,
  \<^verbatim>\<open>if r == unsat: exit()\<close> ends the run without a path (\<open>Exited\<close>), and on any
  other verdict \<^verbatim>\<open>s.model()\<close> is asked for: it raises the solver's exception
  when the solver has no model (\<open>NoModel\<close>); otherwise the decoding loop runs, and the
  run ends with its error (\<open>DecodeFailed\<close>) or with the printed path (\<open>Path\<close>). The
  outcomes after the solver call carry the verdict that was printed.
\<close>

datatype outcome =
    Raised py_error
  | Exited check_result
  | NoModel check_result
  | DecodeFailed check_result py_error
  | Path check_result "int list"

record run =
  printed :: matrix
  ending :: outcome

text \<open>
  The solver is a parameter: for the asserted list it gives the verdict of
  \<^verbatim>\<open>s.check()\<close> and what \<^verbatim>\<open>s.model()\<close> would return.
\<close>

type_synonym solver = "constr list \<Rightarrow> check_result \<times> model option"

definition after_print :: "solver \<Rightarrow> matrix \<Rightarrow> outcome" where
  "after_print solve adj =
     (case encode adj of
        Inl e \<Rightarrow> Raised e
      | Inr (s, k) \<Rightarrow>
          (case solve s of
             (r, mo) \<Rightarrow>
               if r = unsat then Exited r
               else (case mo of
                       None \<Rightarrow> NoModel r
                     | Some m \<Rightarrow>
                         (case results (get_model s m) k of
                            Inl e \<Rightarrow> DecodeFailed r e
                          | Inr path \<Rightarrow> Path r path))))"

definition main :: "solver \<Rightarrow> matrix \<Rightarrow> run" where
  "main solve adj = \<lparr>printed = echo adj, ending = after_print solve adj\<rparr>"

section \<open>Closed forms of the loops\<close>

text \<open>The values \<open>P(0), ..., P(k)\<close> of an interpretation.\<close>

definition sequence :: "model \<Rightarrow> nat \<Rightarrow> int list" where
  "sequence m k = map (\<lambda>i. eval m (Papp (IntVal (int i)))) [0..<k + 1]"

definition edge_occurrences :: "matrix \<Rightarrow> (nat \<times> nat) list" where
  "edge_occurrences adj =
     concat (map (\<lambda>i. concat (map (\<lambda>j. replicate (nat (entry adj i j)) (i, j)) [i..<length adj]))
                 [0..<length adj])"

definition occ_from :: "nat \<Rightarrow> (nat \<times> nat) list \<Rightarrow> constr list" where
  "occ_from k0 es = map (\<lambda>(e, u, v). edge_constraint e u v) (zip [k0..<k0 + length es] es)"

definition t_row :: "nat \<Rightarrow> nat \<Rightarrow> constr list" where
  "t_row k i =
     [Le (tapp (IntVal (int i))) (IntVal (int k - 1)), Ge (tapp (IntVal (int i))) (IntVal 0)]
     @ map (\<lambda>j. Ne (tapp (IntVal (int i))) (tapp (IntVal (int j)))) (filter (\<lambda>j. i \<noteq> j) [0..<k])"

definition t_assertions :: "nat \<Rightarrow> constr list" where
  "t_assertions k = concat (map (t_row k) [0..<k])"

definition square :: "matrix \<Rightarrow> bool" where
  "square adj = (adj \<noteq> [] \<and> list_all (\<lambda>row. length row = length adj) adj)"

definition row_edges :: "matrix \<Rightarrow> nat \<Rightarrow> nat list \<Rightarrow> (nat \<times> nat) list" where
  "row_edges adj i js = concat (map (\<lambda>j. replicate (nat (entry adj i j)) (i, j)) js)"

definition rows_edges :: "matrix \<Rightarrow> nat \<Rightarrow> nat list \<Rightarrow> (nat \<times> nat) list" where
  "rows_edges adj n is = concat (map (\<lambda>i. row_edges adj i [i..<n]) is)"

definition wide :: "matrix \<Rightarrow> bool" where
  "wide adj = (adj \<noteq> [] \<and> list_all (\<lambda>row. length adj \<le> length row) adj)"

definition steps :: "int list \<Rightarrow> (int \<times> int) list" where
  "steps path = zip path (tl path)"

text \<open>A model and a solver answer used to run the definitions on concrete inputs.\<close>

definition example_model :: model where
  "example_model = \<lparr>P_of = (\<lambda>x. if x = 0 then 0 else 1), t_of = (\<lambda>x. 0)\<rparr>"

definition example_solver :: solver where
  "example_solver s = (sat, Some example_model)"

definition ends :: "int \<times> int \<Rightarrow> int set" where
  "ends p = {fst p, snd p}"

definition edge_ends :: "nat \<times> nat \<Rightarrow> int set" where
  "edge_ends e = {int (fst e), int (snd e)}"

definition slot :: "model \<Rightarrow> nat \<Rightarrow> nat" where
  "slot m e = nat (t_of m (int e))"

definition triangle_model :: model where
  "triangle_model =
     \<lparr>P_of = (\<lambda>x. if x = 1 then 2 else if x = 2 then 1 else 0),
      t_of = (\<lambda>e. if e = 0 then 2 else if e = 1 then 0 else 1)\<rparr>"

definition triangle :: matrix where
  "triangle = [[0, 1, 1], [1, 0, 1], [1, 1, 0]]"

definition loop_model :: model where
  "loop_model = \<lparr>P_of = (\<lambda>x. if x = 0 then 0 else 1), t_of = (\<lambda>e. e)\<rparr>"

definition zigzag_model :: model where
  "zigzag_model = \<lparr>P_of = (\<lambda>x. if x = 1 then 1 else 0), t_of = (\<lambda>e. e)\<rparr>"

definition const_model :: "int \<Rightarrow> model" where
  "const_model c = \<lparr>P_of = (\<lambda>x. c), t_of = (\<lambda>e. 0)\<rparr>"

definition const_solver :: "check_result \<Rightarrow> model option \<Rightarrow> solver" where
  "const_solver r mo s = (r, mo)"

section \<open>Undirected multigraphs and Eulerian trails\<close>

text \<open>
  An undirected multigraph is the multiset of its edges, an edge being the set of its one
  (self-loop) or two endpoints.
\<close>

fun usteps :: "'a list \<Rightarrow> 'a set multiset" where
  "usteps (u # v # p) = add_mset {u, v} (usteps (v # p))"
| "usteps p = {#}"

definition deg :: "'a set multiset \<Rightarrow> 'a \<Rightarrow> nat" where
  "deg E v = size (filter_mset (\<lambda>e. v \<in> e) E) + count E {v}"

definition adjrel :: "'a set multiset \<Rightarrow> ('a \<times> 'a) set" where
  "adjrel E = {(u, v). {u, v} \<in># E}"

definition econn :: "'a set multiset \<Rightarrow> bool" where
  "econn E = (\<forall>e1\<in>#E. \<forall>e2\<in>#E. \<forall>u\<in>e1. \<forall>v\<in>e2. (u, v) \<in> (adjrel E)\<^sup>*)"

definition pairs :: "'a set multiset \<Rightarrow> bool" where
  "pairs E = (\<forall>e\<in>#E. \<exists>a b. e = {a, b})"

text \<open>
  The multigraph of an input matrix is the multiset of its edge occurrences; the degree
  of a vertex counts the edge ends at it, so a self-loop counts twice.
\<close>

definition graph :: "matrix \<Rightarrow> int set multiset" where
  "graph adj = image_mset edge_ends (mset (edge_occurrences adj))"

definition degree :: "matrix \<Rightarrow> nat \<Rightarrow> nat" where
  "degree adj v =
     length (filter (\<lambda>e. fst e = v) (edge_occurrences adj)) +
     length (filter (\<lambda>e. snd e = v) (edge_occurrences adj))"

definition odd_vertices :: "matrix \<Rightarrow> nat list" where
  "odd_vertices adj = filter (\<lambda>v. odd (degree adj v)) [0..<length adj]"

definition adjacent :: "matrix \<Rightarrow> (nat \<times> nat) set" where
  "adjacent adj = set (edge_occurrences adj) \<union> (set (edge_occurrences adj))\<inverse>"

definition connected :: "matrix \<Rightarrow> bool" where
  "connected adj = (\<forall>u<length adj. \<forall>v<length adj. (u, v) \<in> (adjacent adj)\<^sup>*)"

definition edges_connected :: "matrix \<Rightarrow> bool" where
  "edges_connected adj =
     (\<forall>e1\<in>set (edge_occurrences adj). \<forall>e2\<in>set (edge_occurrences adj).
        (fst e1, fst e2) \<in> (adjacent adj)\<^sup>*)"

text \<open>Scenario D of the specification (two disjoint edges) and its scenario C.\<close>

definition two_edges :: matrix where
  "two_edges = [[0, 1, 0, 0], [1, 0, 0, 0], [0, 0, 0, 1], [0, 0, 1, 0]]"

definition scenario_C :: matrix where
  "scenario_C = [[0,1,0,0,0,1],[1,0,1,1,2,0],[0,1,0,0,0,1],[0,1,0,2,1,0],[0,2,0,1,0,0],[1,0,1,0,0,0]]"

section \<open>The encoder in closed form\<close>

lemma occ_from_Nil [simp]: "occ_from k [] = []"
  by (simp add: occ_from_def)

lemma occ_from_append:
  "occ_from k (xs @ ys) = occ_from k xs @ occ_from (k + length xs) ys"
proof -
  have "[k..<k + (length xs + length ys)] = [k..<k + length xs] @ [k + length xs..<k + length xs + length ys]"
    by (metis add.assoc le_add1 upt_add_eq_append)
  then show ?thesis by (simp add: occ_from_def)
qed

lemma g_loop_eq:
  "g_loop g i j (s, k) = (s @ occ_from k (replicate g (i, j)), k + g)"
proof (induction g arbitrary: s k)
  case 0
  show ?case by simp
next
  case (Suc g)
  have "replicate (Suc g) (i, j) = [(i, j)] @ replicate g (i, j)" by simp
  then have "occ_from k (replicate (Suc g) (i, j)) = occ_from k [(i, j)] @ occ_from (Suc k) (replicate g (i, j))"
    by (simp only: occ_from_append) simp
  moreover have "occ_from k [(i, j)] = [edge_constraint k i j]"
    by (simp add: occ_from_def)
  ultimately show ?case using Suc.IH [of "s @ [edge_constraint k i j]" "Suc k"] by simp
qed

lemma j_loop_eq:
  "i < length adj \<Longrightarrow> \<forall>j\<in>set js. j < length (adj ! i) \<Longrightarrow>
   j_loop adj i js (s, k) = Inr (s @ occ_from k (row_edges adj i js), k + length (row_edges adj i js))"
proof (induction js arbitrary: s k)
  case Nil
  show ?case by (simp add: row_edges_def)
next
  case (Cons j js)
  have at: "at adj i j = Inr (entry adj i j)" using Cons.prems by (simp add: at_def)
  have re: "row_edges adj i (j # js) = replicate (nat (entry adj i j)) (i, j) @ row_edges adj i js"
    by (simp add: row_edges_def)
  have step: "(if entry adj i j \<noteq> 0 then g_loop (nat (entry adj i j)) i j (s, k) else (s, k))
      = (s @ occ_from k (replicate (nat (entry adj i j)) (i, j)), k + nat (entry adj i j))"
    by (simp add: g_loop_eq)
  show ?case
    using Cons.IH [of "s @ occ_from k (replicate (nat (entry adj i j)) (i, j))" "k + nat (entry adj i j)"] Cons.prems
    by (simp add: at step re occ_from_append add.assoc)
qed

lemma i_loop_eq:
  "\<forall>i\<in>set is. i < length adj \<and> n \<le> length (adj ! i) \<Longrightarrow>
   i_loop adj n is (s, k) = Inr (s @ occ_from k (rows_edges adj n is), k + length (rows_edges adj n is))"
proof (induction "is" arbitrary: s k)
  case Nil
  show ?case by (simp add: rows_edges_def)
next
  case (Cons i "is")
  have j: "j_loop adj i [i..<n] (s, k) = Inr (s @ occ_from k (row_edges adj i [i..<n]), k + length (row_edges adj i [i..<n]))"
    using Cons.prems by (intro j_loop_eq) auto
  have re: "rows_edges adj n (i # is) = row_edges adj i [i..<n] @ rows_edges adj n is"
    by (simp add: rows_edges_def)
  show ?case
    using Cons.IH [of "s @ occ_from k (row_edges adj i [i..<n])" "k + length (row_edges adj i [i..<n])"] Cons.prems
    by (simp add: j re occ_from_append add.assoc)
qed

lemma distinct_loop_eq:
  "distinct_loop i js s =
     s @ map (\<lambda>j. Ne (tapp (IntVal (int i))) (tapp (IntVal (int j)))) (filter (\<lambda>j. i \<noteq> j) js)"
  by (induction js arbitrary: s) auto

lemma range_loop_eq: "range_loop k is s = s @ concat (map (t_row k) is)"
  by (induction "is" arbitrary: s) (auto simp: distinct_loop_eq t_row_def)

lemma edge_occurrences_rows: "edge_occurrences adj = rows_edges adj (length adj) [0..<length adj]"
  by (simp add: edge_occurrences_def rows_edges_def row_edges_def)

lemma encode_square:
  assumes "square adj"
  shows "encode adj =
    Inr (occ_from 0 (edge_occurrences adj) @ t_assertions (length (edge_occurrences adj)),
         length (edge_occurrences adj))"
proof -
  have ne: "adj \<noteq> []" using assms by (simp add: square_def)
  have "\<forall>i\<in>set [0..<length adj]. i < length adj \<and> length adj \<le> length (adj ! i)"
    using assms by (auto simp: square_def list_all_length)
  from i_loop_eq [OF this, of "[]" 0]
  show ?thesis
    using ne by (simp add: encode_def shape0_def range_loop_eq t_assertions_def edge_occurrences_rows)
qed

lemma j_loop_Inr_D:
  "j_loop adj i js st = Inr st' \<Longrightarrow> j \<in> set js \<Longrightarrow> i < length adj \<and> j < length (adj ! i)"
  by (induction adj i js st rule: j_loop.induct)
     (auto simp: at_def split: sum.splits if_splits)

lemma j_loop_Inl_D: "j_loop adj i js st = Inl e \<Longrightarrow> e = IndexError"
  by (induction adj i js st rule: j_loop.induct)
     (auto simp: at_def split: sum.splits if_splits)

lemma i_loop_Inl_D: "i_loop adj n is st = Inl e \<Longrightarrow> e = IndexError"
  by (induction adj n "is" st rule: i_loop.induct)
     (auto split: sum.splits dest: j_loop_Inl_D)

lemma i_loop_Inr_D:
  "i_loop adj n is st = Inr st' \<Longrightarrow> i \<in> set is \<Longrightarrow> i < n \<Longrightarrow> n \<le> length (adj ! i)"
proof (induction "is" arbitrary: st)
  case Nil
  then show ?case by simp
next
  case (Cons a "is")
  show ?case
  proof (cases "j_loop adj a [a..<n] st")
    case (Inl e)
    with Cons.prems show ?thesis by simp
  next
    case (Inr st1)
    show ?thesis
    proof (cases "i = a")
      case True
      with Cons.prems have "n - 1 \<in> set [a..<n]" by auto
      from j_loop_Inr_D [OF Inr this] Cons.prems show ?thesis using True by auto
    next
      case False
      with Cons.prems Inr show ?thesis using Cons.IH [of st1] by auto
    qed
  qed
qed

lemma encode_Inr_wide: "encode adj = Inr st \<Longrightarrow> wide adj"
proof -
  assume e: "encode adj = Inr st"
  have ne: "adj \<noteq> []"
  proof
    assume "adj = []"
    then have "encode adj = Inl IndexError" by (simp add: encode_def shape0_def at_def)
    with e show False by simp
  qed
  from e ne obtain st1 where i: "i_loop adj (length adj) [0..<length adj] ([], 0) = Inr st1"
    by (auto simp: encode_def shape0_def split: sum.splits)
  have "\<forall>i<length adj. length adj \<le> length (adj ! i)"
    using i_loop_Inr_D [OF i] by auto
  with ne show ?thesis by (simp add: wide_def list_all_length)
qed

lemma encode_wide:
  assumes "wide adj"
  shows "encode adj =
    Inr (occ_from 0 (edge_occurrences adj) @ t_assertions (length (edge_occurrences adj)),
         length (edge_occurrences adj))"
proof -
  have ne: "adj \<noteq> []" using assms by (simp add: wide_def)
  have "\<forall>i\<in>set [0..<length adj]. i < length adj \<and> length adj \<le> length (adj ! i)"
    using assms by (auto simp: wide_def list_all_length)
  from i_loop_eq [OF this, of "[]" 0]
  show ?thesis
    using ne by (simp add: encode_def shape0_def range_loop_eq t_assertions_def edge_occurrences_rows)
qed

lemma encode_not_wide: "\<not> wide adj \<Longrightarrow> encode adj = Inl IndexError"
proof -
  assume nw: "\<not> wide adj"
  show ?thesis
  proof (cases "encode adj")
    case (Inl e)
    then show ?thesis by (auto simp: encode_def split: sum.splits dest: i_loop_Inl_D)
  next
    case (Inr st)
    with nw encode_Inr_wide show ?thesis by blast
  qed
qed

lemma satisfies_append: "satisfies m (a @ b) = (satisfies m a \<and> satisfies m b)"
  by (simp add: satisfies_def)

lemma occ_from_nth:
  "e < length es \<Longrightarrow> occ_from k0 es ! e = edge_constraint (k0 + e) (fst (es ! e)) (snd (es ! e))"
  by (simp add: occ_from_def case_prod_beta)

lemma length_occ_from [simp]: "length (occ_from k0 es) = length es"
  by (simp add: occ_from_def)

lemma holds_edge_constraint:
  "holds m (edge_constraint e u v) =
     ((P_of m (t_of m (int e)) = int u \<and> P_of m (t_of m (int e) + 1) = int v) \<or>
      (P_of m (t_of m (int e)) = int v \<and> P_of m (t_of m (int e) + 1) = int u))"
  by (simp add: edge_constraint_def)

lemma satisfies_occ_from:
  "satisfies m (occ_from 0 es) =
     (\<forall>e<length es. holds m (edge_constraint e (fst (es ! e)) (snd (es ! e))))"
  by (simp add: satisfies_def list_all_length occ_from_nth)

lemma satisfies_t_row:
  "satisfies m (t_row k i) =
     (t_of m (int i) \<le> int k - 1 \<and> 0 \<le> t_of m (int i) \<and>
      (\<forall>j<k. i \<noteq> j \<longrightarrow> t_of m (int i) \<noteq> t_of m (int j)))"
  by (auto simp: satisfies_def t_row_def list_all_iff)

lemma satisfies_t_assertions:
  "satisfies m (t_assertions k) =
     (\<forall>i<k. t_of m (int i) \<le> int k - 1 \<and> 0 \<le> t_of m (int i) \<and>
        (\<forall>j<k. i \<noteq> j \<longrightarrow> t_of m (int i) \<noteq> t_of m (int j)))"
proof -
  have "satisfies m (t_assertions k) = (\<forall>i<k. satisfies m (t_row k i))"
    by (auto simp: satisfies_def t_assertions_def list_all_iff)
  then show ?thesis by (simp add: satisfies_t_row)
qed

lemma occ_from_0_map:
  "occ_from 0 es = map (\<lambda>e. edge_constraint e (fst (es ! e)) (snd (es ! e))) [0..<length es]"
  by (rule nth_equalityI) (simp_all add: occ_from_nth)

lemma encode_Inr_eq:
  assumes "encode adj = Inr (s, k)"
  shows "k = length (edge_occurrences adj) \<and>
         s = occ_from 0 (edge_occurrences adj) @ t_assertions k"
  using encode_wide [OF encode_Inr_wide [OF assms]] assms by simp

lemma length_row_edges:
  "length (row_edges adj i js) = (\<Sum>j\<leftarrow>js. nat (entry adj i j))"
  by (simp add: row_edges_def length_concat comp_def)

lemma length_edge_occurrences:
  "length (edge_occurrences adj) =
     (\<Sum>i = 0..<length adj. \<Sum>j = i..<length adj. nat (entry adj i j))"
proof -
  have "length (edge_occurrences adj) =
      (\<Sum>i\<leftarrow>[0..<length adj]. \<Sum>j\<leftarrow>[i..<length adj]. nat (entry adj i j))"
    by (simp add: edge_occurrences_def length_concat comp_def)
  then show ?thesis
    by (simp add: interv_sum_list_conv_sum_set_nat)
qed

lemma square_wide: "square adj \<Longrightarrow> wide adj"
  by (simp add: square_def wide_def list_all_iff)

lemma j_loop_cong:
  "\<forall>j\<in>set js. at adj i j = at adj' i j \<Longrightarrow> j_loop adj i js st = j_loop adj' i js st"
  by (induction js arbitrary: st) (auto split: sum.splits)

lemma i_loop_cong:
  "\<forall>i\<in>set is. \<forall>j\<in>set [i..<n]. at adj i j = at adj' i j \<Longrightarrow>
   i_loop adj n is st = i_loop adj' n is st"
proof (induction "is" arbitrary: st)
  case Nil
  show ?case by simp
next
  case (Cons i "is")
  have "j_loop adj i [i..<n] st = j_loop adj' i [i..<n] st"
    using Cons.prems by (intro j_loop_cong) simp
  moreover have "\<And>st'. i_loop adj n is st' = i_loop adj' n is st'"
    using Cons.prems by (intro Cons.IH) simp
  ultimately show ?case by (simp split: sum.splits)
qed

lemma length_sequence [simp]: "length (sequence m k) = k + 1"
  by (simp add: sequence_def)

lemma length_steps_sequence [simp]: "length (steps (sequence m k)) = k"
  by (simp add: steps_def)

lemma steps_sequence_nth:
  "i < k \<Longrightarrow> steps (sequence m k) ! i = (P_of m (int i), P_of m (int i + 1))"
proof -
  assume i: "i < k"
  have "steps (sequence m k) ! i = (sequence m k ! i, tl (sequence m k) ! i)"
    using i by (simp add: steps_def)
  also have "tl (sequence m k) ! i = sequence m k ! Suc i"
    using i by (simp add: nth_tl)
  also have "sequence m k ! Suc i = P_of m (int i + 1)"
    using i by (simp add: sequence_def nth_map_upt del: upt_Suc) (simp add: add.commute)
  also have "sequence m k ! i = P_of m (int i)"
    using i by (simp add: sequence_def nth_map_upt del: upt_Suc)
  finally show ?thesis .
qed

lemma satisfies_encode:
  assumes "encode adj = Inr (s, k)"
  shows "satisfies m s =
    ((\<forall>e<k. holds m (edge_constraint e (fst (edge_occurrences adj ! e))
                                         (snd (edge_occurrences adj ! e)))) \<and>
     (\<forall>i<k. t_of m (int i) \<le> int k - 1 \<and> 0 \<le> t_of m (int i) \<and>
        (\<forall>j<k. i \<noteq> j \<longrightarrow> t_of m (int i) \<noteq> t_of m (int j))))"
  using encode_Inr_eq [OF assms]
  by (simp add: satisfies_append satisfies_occ_from satisfies_t_assertions)

lemma slot_bij:
  assumes "\<forall>i<k. t_of m (int i) \<le> int k - 1 \<and> 0 \<le> t_of m (int i) \<and>
        (\<forall>j<k. i \<noteq> j \<longrightarrow> t_of m (int i) \<noteq> t_of m (int j))"
  shows "bij_betw (slot m) {..<k} {..<k}"
proof -
  have sub: "slot m ` {..<k} \<subseteq> {..<k}"
    using assms by (auto simp: slot_def)
  have inj: "inj_on (slot m) {..<k}"
  proof (rule inj_onI)
    fix x y
    assume x: "x \<in> {..<k}" and y: "y \<in> {..<k}" and eq: "slot m x = slot m y"
    from x y assms have "0 \<le> t_of m (int x)" "0 \<le> t_of m (int y)" by auto
    with eq have "t_of m (int x) = t_of m (int y)" by (simp add: slot_def)
    with x y assms show "x = y" by (metis lessThan_iff)
  qed
  have "slot m ` {..<k} = {..<k}"
    by (rule endo_inj_surj) (use sub inj in auto)
  with inj show ?thesis by (simp add: bij_betw_def)
qed

lemma slot_edge:
  assumes "holds m (edge_constraint e u v)" and "0 \<le> t_of m (int e)" and "slot m e < k"
  shows "ends (steps (sequence m k) ! slot m e) = edge_ends (u, v)"
proof -
  have t: "t_of m (int e) = int (slot m e)" using assms(2) by (simp add: slot_def)
  show ?thesis
    using assms(1) assms(3)
    by (auto simp: holds_edge_constraint steps_sequence_nth ends_def edge_ends_def t)
qed

lemma mset_via_bij:
  assumes bij: "bij_betw f {..<k} {..<k}"
    and xs: "length xs = k" and ys: "length ys = k"
    and eq: "\<forall>e<k. g (xs ! f e) = h (ys ! e)"
  shows "image_mset g (mset xs) = image_mset h (mset ys)"
proof -
  have perm: "image_mset f (mset [0..<k]) = mset [0..<k]"
  proof -
    have "image_mset f (mset_set {0..<k}) = mset_set (f ` {0..<k})"
      using bij by (intro image_mset_mset_set) (simp add: bij_betw_def atLeast0LessThan)
    also have "f ` {0..<k} = {0..<k}"
      using bij by (simp add: bij_betw_def atLeast0LessThan)
    finally show ?thesis by (simp add: mset_upt)
  qed
  have "mset xs = image_mset ((!) xs) (mset [0..<k])"
    using xs by (metis map_nth mset_map)
  also have "\<dots> = image_mset ((!) xs) (image_mset f (mset [0..<k]))"
    by (simp only: perm)
  finally have "image_mset g (mset xs) = image_mset (\<lambda>e. g (xs ! f e)) (mset [0..<k])"
    by (simp add: multiset.map_comp comp_def)
  also have "\<dots> = image_mset (\<lambda>e. h (ys ! e)) (mset [0..<k])"
    using eq by (intro image_mset_cong) simp
  also have "\<dots> = image_mset h (image_mset ((!) ys) (mset [0..<k]))"
    by (simp add: multiset.map_comp comp_def)
  also have "image_mset ((!) ys) (mset [0..<k]) = mset ys"
    using ys by (metis map_nth mset_map)
  finally show ?thesis .
qed

lemma count_list_replicate_eq: "count_list (replicate n x) y = (if x = y then n else 0)"
  by (induction n) auto

lemma sum_list_upt_delta:
  "(\<Sum>j\<leftarrow>[i..<n]. if j = b then c j else 0) = (if i \<le> b \<and> b < n then c b else (0::nat))"
  by (simp add: interv_sum_list_conv_sum_set_nat sum.delta)

lemma count_list_row_edges:
  "count_list (row_edges adj i [i..<n]) (a, b) =
     (if i = a \<and> a \<le> b \<and> b < n then nat (entry adj a b) else 0)"
proof -
  have "count_list (row_edges adj i [i..<n]) (a, b) =
      (\<Sum>j\<leftarrow>[i..<n]. if j = b then (if i = a then nat (entry adj i j) else 0) else 0)"
    by (simp add: row_edges_def count_list_concat comp_def count_list_replicate_eq)
       (intro arg_cong [where f = sum_list] map_cong refl, auto)
  then show ?thesis by (simp only: sum_list_upt_delta) auto
qed

lemma count_list_edge_occurrences:
  "count_list (edge_occurrences adj) (a, b) =
     (if a \<le> b \<and> b < length adj then nat (entry adj a b) else 0)"
proof -
  let ?c = "\<lambda>i. if a \<le> b \<and> b < length adj then nat (entry adj i b) else 0"
  have "map (\<lambda>i. count_list (row_edges adj i [i..<length adj]) (a, b)) [0..<length adj] =
        map (\<lambda>i. if i = a then ?c i else 0) [0..<length adj]"
    by (rule map_cong) (auto simp: count_list_row_edges)
  then have "sum_list (map (\<lambda>i. count_list (row_edges adj i [i..<length adj]) (a, b)) [0..<length adj]) =
      (\<Sum>i\<leftarrow>[0..<length adj]. if i = a then ?c i else 0)"
    by (rule arg_cong)
  moreover have "count_list (edge_occurrences adj) (a, b) =
      sum_list (map (\<lambda>i. count_list (row_edges adj i [i..<length adj]) (a, b)) [0..<length adj])"
    unfolding edge_occurrences_rows rows_edges_def
    by (simp add: count_list_concat comp_def)
  ultimately have "count_list (edge_occurrences adj) (a, b) =
      (\<Sum>i\<leftarrow>[0..<length adj]. if i = a then ?c i else 0)"
    by (rule ssubst [rotated]) 
  also have "\<dots> = (if 0 \<le> a \<and> a < length adj then ?c a else 0)"
    by (rule sum_list_upt_delta)
  finally show ?thesis by auto
qed

lemma count_image_mset_filter:
  "count (image_mset f M) y = size (filter_mset (\<lambda>x. f x = y) M)"
  by (induction M) auto

lemma ends_singleton: "ends p = {c} \<longleftrightarrow> p = (c, c)"
  by (cases p) (auto simp: ends_def doubleton_eq_iff)

lemma edge_ends_singleton: "edge_ends e = {int v} \<longleftrightarrow> e = (v, v)"
  by (cases e) (auto simp: edge_ends_def doubleton_eq_iff)

lemma length_filter_count_list: "length (filter (\<lambda>x. x = y) xs) = count_list xs y"
  by (induction xs) auto

lemma coverage_facts:
  assumes "encode adj = Inr (s, k)" and "satisfies m s"
  shows "bij_betw (slot m) {..<k} {..<k}"
    and "\<forall>e<k. t_of m (int e) = int (slot m e) \<and>
                ends (steps (sequence m k) ! slot m e) = edge_ends (edge_occurrences adj ! e)"
    and "image_mset ends (mset (steps (sequence m k))) =
           image_mset edge_ends (mset (edge_occurrences adj))"
proof -
  let ?es = "edge_occurrences adj"
  have k: "k = length ?es" using encode_Inr_eq [OF assms(1)] by simp
  from assms have A: "\<forall>e<k. holds m (edge_constraint e (fst (?es ! e)) (snd (?es ! e)))"
    and B: "\<forall>i<k. t_of m (int i) \<le> int k - 1 \<and> 0 \<le> t_of m (int i) \<and>
        (\<forall>j<k. i \<noteq> j \<longrightarrow> t_of m (int i) \<noteq> t_of m (int j))"
    by (simp_all add: satisfies_encode)
  show bij: "bij_betw (slot m) {..<k} {..<k}" by (rule slot_bij [OF B])
  have lt: "\<forall>e<k. slot m e < k" using bij by (auto simp: bij_betw_def)
  show E: "\<forall>e<k. t_of m (int e) = int (slot m e) \<and>
       ends (steps (sequence m k) ! slot m e) = edge_ends (?es ! e)"
  proof (intro allI impI conjI)
    fix e assume e: "e < k"
    show "t_of m (int e) = int (slot m e)" using B e by (simp add: slot_def)
    show "ends (steps (sequence m k) ! slot m e) = edge_ends (?es ! e)"
      using slot_edge [of m e "fst (?es ! e)" "snd (?es ! e)" k] A B lt e by simp
  qed
  show "image_mset ends (mset (steps (sequence m k))) = image_mset edge_ends (mset ?es)"
    by (rule mset_via_bij [OF bij]) (use E k in simp_all)
qed

lemma results_loop_eq:
  "results_loop mr is acc =
     (if has_P mr then Inr (acc @ map (\<lambda>i. eval (interp mr) (Papp (IntVal (int i)))) is)
      else if is = [] then Inr acc else Inl AttributeError)"
  by (induction "is" arbitrary: acc) (simp_all add: evaluate_P_def)

lemma results_eq:
  "results mr k = (if has_P mr then Inr (sequence (interp mr) k) else Inl AttributeError)"
  by (simp add: results_def results_loop_eq sequence_def)

lemma uses_P_edge_constraint [simp]: "uses_P (edge_constraint e u v)"
  by (simp add: edge_constraint_def)

lemma uses_P_t_assertions: "\<not> list_ex uses_P (t_assertions k)"
  by (auto simp: t_assertions_def t_row_def list_ex_iff)

lemma uses_P_occ_from: "list_ex uses_P (occ_from k0 es) \<longleftrightarrow> es \<noteq> []"
proof (cases es)
  case Nil
  then show ?thesis by simp
next
  case (Cons e es')
  have "occ_from k0 es ! 0 = edge_constraint (k0 + 0) (fst (es ! 0)) (snd (es ! 0))"
    by (rule occ_from_nth) (simp add: Cons)
  moreover have "occ_from k0 es ! 0 \<in> set (occ_from k0 es)"
    by (rule nth_mem) (simp add: Cons)
  ultimately have "\<exists>c\<in>set (occ_from k0 es). uses_P c"
    by (metis uses_P_edge_constraint)
  then show ?thesis by (simp add: list_ex_iff Cons)
qed

lemma has_P_encode:
  assumes "encode adj = Inr (s, k)"
  shows "has_P (get_model s m) \<longleftrightarrow> 0 < k"
proof -
  have k: "k = length (edge_occurrences adj)"
    and s: "s = occ_from 0 (edge_occurrences adj) @ t_assertions k"
    using encode_Inr_eq [OF assms] by simp_all
  have "list_ex uses_P s \<longleftrightarrow> list_ex uses_P (occ_from 0 (edge_occurrences adj))"
    using uses_P_t_assertions [of k] by (simp add: s list_ex_iff) blast
  then show ?thesis by (simp add: get_model_def uses_P_occ_from k)
qed

lemma results_encode:
  assumes "encode adj = Inr (s, k)"
  shows "results (get_model s m) k = (if 0 < k then Inr (sequence m k) else Inl AttributeError)"
  using has_P_encode [OF assms, of m] by (simp add: results_eq) (simp add: get_model_def)

lemma after_print_encoded:
  assumes "encode adj = Inr (s, k)"
  shows "after_print solve adj =
     (case solve s of
        (r, mo) \<Rightarrow>
          if r = unsat then Exited r
          else (case mo of
                  None \<Rightarrow> NoModel r
                | Some m \<Rightarrow> if 0 < k then Path r (sequence m k) else DecodeFailed r AttributeError))"
proof -
  have r: "results (get_model s m) k =
      (if 0 < k then Inr (sequence m k) else Inl AttributeError)" for m
    by (rule results_encode [OF assms])
  show ?thesis
    by (simp add: after_print_def assms r split: prod.splits option.splits)
qed

lemma ending_main [simp]: "ending (main solve adj) = after_print solve adj"
  by (simp add: main_def)

lemma after_print_Raised_iff:
  "after_print solve adj = Raised e \<longleftrightarrow> e = IndexError \<and> \<not> wide adj"
proof (cases "wide adj")
  case True
  from encode_wide [OF this] show ?thesis
    by (auto simp: after_print_encoded True split: prod.splits option.splits)
next
  case False
  from encode_not_wide [OF this] show ?thesis
    by (auto simp: after_print_def False)
qed

section \<open>Eulerian trails: existence and necessity\<close>

lemma deg_empty [simp]: "deg {#} v = 0"
  by (simp add: deg_def)

lemma deg_add_mset:
  "deg (add_mset e E) v = (if v \<in> e then 1 else 0) + (if e = {v} then 1 else 0) + deg E v"
  by (auto simp: deg_def)

lemma deg_union: "deg (A + B) v = deg A v + deg B v"
  by (simp add: deg_def)

lemma deg_pos_D: "0 < deg E v \<Longrightarrow> \<exists>e\<in>#E. v \<in> e"
  by (induction E) (auto simp: deg_add_mset split: if_splits)

lemma usteps_append:
  "usteps (xs @ [w]) + usteps (w # ys) = usteps (xs @ w # ys)"
  by (induction xs rule: usteps.induct) auto

lemma usteps_join:
  assumes "p \<noteq> []" "q \<noteq> []" "last p = hd q"
  shows "usteps (p @ tl q) = usteps p + usteps q"
proof -
  have "p = butlast p @ [hd q]" using assms by (metis append_butlast_last_id)
  moreover have "q = hd q # tl q" using assms by simp
  ultimately show ?thesis using usteps_append [of "butlast p" "hd q" "tl q"]
    by (metis append.assoc append_Cons append_Nil)
qed

lemma size_usteps: "size (usteps p) = length p - 1"
  by (induction p rule: usteps.induct) auto

lemma usteps_snoc:
  "p \<noteq> [] \<Longrightarrow> usteps (p @ [w]) = add_mset {last p, w} (usteps p)"
proof -
  assume "p \<noteq> []"
  then have a: "p @ [w] = butlast p @ last p # [w]" by simp
  have b: "usteps (butlast p @ [last p]) + usteps (last p # [w]) = usteps (butlast p @ last p # [w])"
    by (rule usteps_append)
  show ?thesis by (subst a) (use b \<open>p \<noteq> []\<close> in simp)
qed

lemma deg_usteps_parity:
  "p \<noteq> [] \<Longrightarrow> even (deg (usteps p) v) \<longleftrightarrow> ((hd p = v) = (last p = v))"
proof (induction p rule: usteps.induct)
  case (1 u w p)
  then show ?case by (auto simp: deg_add_mset doubleton_eq_iff)
qed simp_all

lemma usteps_decomp:
  "e \<in># usteps p \<Longrightarrow> \<exists>xs x y ys. p = xs @ x # y # ys \<and> e = {x, y}"
proof (induction p rule: usteps.induct)
  case (1 u v p)
  show ?case
  proof (cases "e = {u, v}")
    case True
    then show ?thesis by (metis append_Nil)
  next
    case False
    with 1 obtain xs x y ys where "v # p = xs @ x # y # ys" "e = {x, y}" by auto
    then have "u # v # p = (u # xs) @ x # y # ys \<and> e = {x, y}" by simp
    then show ?thesis by blast
  qed
qed simp_all

lemma usteps_vertices: "e \<in># usteps p \<Longrightarrow> e \<subseteq> set p"
  using usteps_decomp by fastforce

lemma rotate_closed:
  assumes "hd p = last p" and "w \<in> set p"
  shows "\<exists>q. q \<noteq> [] \<and> usteps q = usteps p \<and> last q = w"
proof -
  from assms(2) obtain xs ys where p: "p = xs @ w # ys" by (meson split_list)
  let ?a = "xs @ [w]" and ?b = "w # ys"
  have u: "usteps p = usteps ?a + usteps ?b" by (simp add: p usteps_append)
  have "last ?b = hd ?a" using assms(1) p by (cases xs) auto
  then have "usteps (?b @ tl ?a) = usteps ?b + usteps ?a"
    by (intro usteps_join) simp_all
  moreover have "last (?b @ tl ?a) = w" using assms(1) p by (cases xs) auto
  ultimately show ?thesis using u by (metis add.commute append_is_Nil_conv list.distinct(1))
qed

lemma unused_edge_at:
  assumes "U \<subseteq># E" and "odd (deg U z)" and "even (deg E z)"
  shows "\<exists>e\<in>#E - U. z \<in> e"
proof -
  have "E = U + (E - U)" using assms(1) by simp
  then have "deg E z = deg U z + deg (E - U) z" by (metis deg_union)
  with assms(2,3) have "odd (deg (E - U) z)" by simp
  then have "0 < deg (E - U) z" by (auto intro: Nat.gr0I)
  then show ?thesis by (rule deg_pos_D)
qed

lemma add_unused_subset: "U \<subseteq># E \<Longrightarrow> e \<in># E - U \<Longrightarrow> add_mset e U \<subseteq># E"
  by (metis add_mset_add_single subset_mset.add_diff_inverse
      single_subset_iff subset_mset.add_le_cancel_left)

lemma touching_unused_edge:
  assumes "econn E" and "pairs E" and "U \<subseteq># E" and "U \<noteq> {#}" and "U \<noteq> E"
  shows "\<exists>e\<in>#E - U. \<exists>w\<in>e. \<exists>e'\<in>#U. w \<in> e'"
proof (rule ccontr)
  assume no: "\<not> ?thesis"
  let ?V = "\<Union> (set_mset U)"
  have closed: "y \<in> ?V" if "x \<in> ?V" and "(x, y) \<in> (adjrel E)\<^sup>*" for x y
    using that(2,1)
  proof (induction rule: rtrancl_induct)
    case base
    then show ?case .
  next
    case (step y z)
    then have y: "y \<in> ?V" by simp
    from step have yz: "{y, z} \<in># E" by (simp add: adjrel_def)
    show ?case
    proof (cases "{y, z} \<in># U")
      case True
      then show ?thesis by blast
    next
      case False
      then have "count U {y, z} = 0" by (simp add: not_in_iff)
      with yz have "{y, z} \<in># E - U" by (simp add: in_diff_count)
      with no y show ?thesis by blast
    qed
  qed
  from assms(4) obtain e1 where e1: "e1 \<in># U" by blast
  from assms(3,5) have "E - U \<noteq> {#}"
    by (metis subset_mset.add_diff_inverse add.right_neutral)
  then obtain e2 where e2: "e2 \<in># E - U" by blast
  have e1E: "e1 \<in># E" using e1 assms(3) by (meson mset_subset_eqD)
  have e2E: "e2 \<in># E" using e2 by (meson in_diffD)
  from assms(2) e1E obtain u where u: "u \<in> e1" by (auto simp: pairs_def)
  from assms(2) e2E obtain v where v: "v \<in> e2" by (auto simp: pairs_def)
  from assms(1) e1E e2E u v have "(u, v) \<in> (adjrel E)\<^sup>*" by (auto simp: econn_def)
  moreover have "u \<in> ?V" using u e1 by blast
  ultimately have "v \<in> ?V" by (rule closed [rotated])
  with no e2 v show False by blast
qed

lemma pairs_edge_at: "pairs E \<Longrightarrow> e \<in># E \<Longrightarrow> z \<in> e \<Longrightarrow> \<exists>w. e = {z, w}"
  by (auto simp: pairs_def)

lemma euler_circuit_from:
  assumes "pairs E" and "econn E" and "\<forall>v. even (deg E v)"
    and "p \<noteq> []" and "usteps p \<subseteq># E"
  shows "\<exists>q. q \<noteq> [] \<and> usteps q = E \<and> hd q = last q"
  using assms(4,5)
proof (induction "size E - size (usteps p)" arbitrary: p rule: less_induct)
  case less
  let ?U = "usteps p"
  have extend: "\<exists>q. q \<noteq> [] \<and> usteps q = E \<and> hd q = last q"
    if q: "q \<noteq> []" "usteps q = ?U" and e: "e \<in># E - ?U" "last q \<in> e" for q e
  proof -
    from e have "e \<in># E" by (meson in_diffD)
    with assms(1) e(2) obtain w where w: "e = {last q, w}" using pairs_edge_at by metis
    let ?q = "q @ [w]"
    have u: "usteps ?q = add_mset e ?U" using q w by (simp add: usteps_snoc)
    then have sub: "usteps ?q \<subseteq># E" using add_unused_subset [OF less.prems(2) e(1)] by simp
    have "size (usteps ?q) \<le> size E" using sub by (rule size_mset_mono)
    then have "size E - size (usteps ?q) < size E - size ?U" using u by simp
    from less.hyps [OF this _ sub] show ?thesis by simp
  qed
  show ?case
  proof (cases "hd p = last p")
    case False
    then have "odd (deg ?U (last p))"
      using deg_usteps_parity [OF less.prems(1), of "last p"] by simp
    with assms(3) less.prems(2) obtain e where "e \<in># E - ?U" "last p \<in> e"
      using unused_edge_at by metis
    with extend [OF less.prems(1) refl] show ?thesis by blast
  next
    case True
    show ?thesis
    proof (cases "?U = E")
      case True
      with less.prems \<open>hd p = last p\<close> show ?thesis by blast
    next
      case ne: False
      show ?thesis
      proof (cases "?U = {#}")
        case True
        with ne obtain e where e: "e \<in># E" by (metis multiset_nonemptyE)
        with assms(1) obtain a b where ab: "e = {a, b}" by (auto simp: pairs_def)
        have sub: "usteps [a, b] \<subseteq># E" using e ab by simp
        have "size E - size (usteps [a, b]) < size E - size ?U"
          using True e by (cases E) (auto simp: ab)
        from less.hyps [OF this _ sub] show ?thesis by simp
      next
        case False
        from touching_unused_edge [OF assms(2,1) less.prems(2) False ne]
        obtain e w e' where e: "e \<in># E - ?U" "w \<in> e" "e' \<in># ?U" "w \<in> e'" by blast
        then have "w \<in> set p" using usteps_vertices by fastforce
        from rotate_closed [OF True this] obtain q where
          q: "q \<noteq> []" "usteps q = ?U" "last q = w" by blast
        with extend [of q e] e show ?thesis by simp
      qed
    qed
  qed
qed

lemma euler_circuit:
  assumes "pairs E" and "econn E" and "\<forall>v. even (deg E v)"
  shows "\<exists>q. q \<noteq> [] \<and> usteps q = E \<and> hd q = last q"
  using euler_circuit_from [OF assms, of "[undefined]"] by simp

lemma econn_add_edge:
  assumes "econn E" and "0 < deg E a" and "0 < deg E b"
  shows "econn (add_mset {a, b} E)"
proof -
  let ?E = "add_mset {a, b} E"
  have mono: "(adjrel E)\<^sup>* \<subseteq> (adjrel ?E)\<^sup>*"
    by (rule rtrancl_mono) (auto simp: adjrel_def)
  have inE: "\<exists>e'\<in>#E. u \<in> e'" if "e \<in># ?E" "u \<in> e" for e u
    using that assms(2,3) deg_pos_D [of E a] deg_pos_D [of E b] by auto
  show ?thesis
    unfolding econn_def
  proof (intro ballI)
    fix e1 e2 u v
    assume "e1 \<in># ?E" "e2 \<in># ?E" "u \<in> e1" "v \<in> e2"
    then obtain f1 f2 where "f1 \<in># E" "u \<in> f1" "f2 \<in># E" "v \<in> f2"
      using inE by meson
    with assms(1) have "(u, v) \<in> (adjrel E)\<^sup>*" by (auto simp: econn_def)
    with mono show "(u, v) \<in> (adjrel ?E)\<^sup>*" by blast
  qed
qed

lemma euler_trail_two_odd:
  assumes "pairs E" and "econn E" and "{v. odd (deg E v)} = {a, b}" and "a \<noteq> b"
  shows "\<exists>q. q \<noteq> [] \<and> usteps q = E"
proof -
  let ?E = "add_mset {a, b} E"
  have odd: "odd (deg E v) \<longleftrightarrow> v = a \<or> v = b" for v using assms(3) by auto
  have pos: "0 < deg E a" "0 < deg E b" using odd [of a] odd [of b] by (auto intro: Nat.gr0I)
  have 1: "pairs ?E" using assms(1) by (auto simp: pairs_def)
  have 2: "econn ?E" by (rule econn_add_edge [OF assms(2) pos])
  have 3: "\<forall>v. even (deg ?E v)"
    using odd assms(4) by (auto simp: deg_add_mset doubleton_eq_iff)
  from euler_circuit [OF 1 2 3] obtain q where
    q: "q \<noteq> []" "usteps q = ?E" "hd q = last q" by blast
  then have "{a, b} \<in># usteps q" by simp
  from usteps_decomp [OF this] obtain xs x y ys where
    d: "q = xs @ x # y # ys" "{a, b} = {x, y}" by blast
  let ?l = "xs @ [x]" and ?r = "y # ys"
  have "usteps q = usteps ?l + usteps (x # ?r)"
    unfolding d(1) by (rule usteps_append [symmetric])
  then have "?E = add_mset {x, y} (usteps ?l + usteps ?r)" using q(2) by simp
  then have E: "E = usteps ?l + usteps ?r" using d(2) by simp
  have "last ?r = hd ?l" using q(3) d(1) by (cases xs) auto
  then have "usteps (?r @ tl ?l) = usteps ?r + usteps ?l" by (intro usteps_join) simp_all
  with E have "usteps (?r @ tl ?l) = E" by (simp add: add.commute)
  then show ?thesis by (metis append_is_Nil_conv list.distinct(1))
qed

lemma usteps_steps: "image_mset ends (mset (steps p)) = usteps p"
  by (induction p rule: usteps.induct) (auto simp: steps_def ends_def)

lemma adjrel_sym: "sym (adjrel E)"
  by (auto simp: adjrel_def sym_def insert_commute)

lemma adjrel_mono: "A \<subseteq># B \<Longrightarrow> adjrel A \<subseteq> adjrel B"
  by (auto simp: adjrel_def dest: mset_subset_eqD)

lemma trail_reach_hd: "x \<in> set p \<Longrightarrow> (hd p, x) \<in> (adjrel (usteps p))\<^sup>*"
proof (induction p rule: usteps.induct)
  case (1 u v p)
  let ?R = "adjrel (usteps (u # v # p))"
  have uv: "(u, v) \<in> ?R" by (simp add: adjrel_def)
  have sub: "(adjrel (usteps (v # p)))\<^sup>* \<subseteq> ?R\<^sup>*"
    by (intro rtrancl_mono adjrel_mono) simp
  show ?case
  proof (cases "x = u")
    case True
    then show ?thesis by simp
  next
    case False
    with 1 have "(v, x) \<in> (adjrel (usteps (v # p)))\<^sup>*" by simp
    with sub have "(v, x) \<in> ?R\<^sup>*" by blast
    with uv show ?thesis by (simp add: converse_rtrancl_into_rtrancl)
  qed
qed simp_all

lemma trail_reach:
  assumes "x \<in> set p" "y \<in> set p"
  shows "(x, y) \<in> (adjrel (usteps p))\<^sup>*"
proof -
  have "(hd p, x) \<in> (adjrel (usteps p))\<^sup>*" "(hd p, y) \<in> (adjrel (usteps p))\<^sup>*"
    using assms by (simp_all add: trail_reach_hd)
  moreover have "sym ((adjrel (usteps p))\<^sup>*)" by (intro sym_rtrancl adjrel_sym)
  ultimately show ?thesis by (meson rtrancl_trans symD)
qed

lemma trail_necessary:
  assumes "p \<noteq> []" and "usteps p = E"
  shows "econn E"
    and "{v. odd (deg E v)} = (if hd p = last p then {} else {hd p, last p})"
proof -
  show "econn E"
    unfolding econn_def
  proof (intro ballI)
    fix e1 e2 u v
    assume a: "e1 \<in># E" "e2 \<in># E" "u \<in> e1" "v \<in> e2"
    have "e1 \<subseteq> set p" using a(1) assms(2) by (intro usteps_vertices) simp
    moreover have "e2 \<subseteq> set p" using a(2) assms(2) by (intro usteps_vertices) simp
    ultimately have "u \<in> set p" "v \<in> set p" using a(3,4) by blast+
    then have "(u, v) \<in> (adjrel (usteps p))\<^sup>*" by (rule trail_reach)
    then show "(u, v) \<in> (adjrel E)\<^sup>*" by (simp only: assms(2))
  qed
  have o: "odd (deg E v) \<longleftrightarrow> (hd p = v) \<noteq> (last p = v)" for v
    using deg_usteps_parity [OF assms(1), of v] assms(2) by simp
  show "{v. odd (deg E v)} = (if hd p = last p then {} else {hd p, last p})"
  proof (cases "hd p = last p")
    case True
    then show ?thesis by (simp add: o)
  next
    case False
    have "{v. odd (deg E v)} = {v. (hd p = v) \<noteq> (last p = v)}" by (simp only: o)
    also have "\<dots> = {hd p, last p}"
    proof (rule set_eqI)
      fix v
      show "v \<in> {v. (hd p = v) \<noteq> (last p = v)} \<longleftrightarrow> v \<in> {hd p, last p}"
        using False by (cases "hd p = v"; cases "last p = v") simp_all
    qed
    finally show ?thesis using False by simp
  qed
qed

lemma steps_nth: "i + 1 < length p \<Longrightarrow> steps p ! i = (p ! i, p ! (i + 1))"
  by (simp add: steps_def nth_tl)

lemma matching_slots:
  assumes "mset xs' = mset xs"
  shows "\<exists>ts. length ts = length xs \<and> distinct ts \<and>
               (\<forall>e<length xs. ts ! e < length xs \<and> xs ! (ts ! e) = xs' ! e)"
proof -
  let ?n = "length xs"
  have len: "length xs' = ?n" using assms by (metis size_mset)
  have "length xs = length [0..<?n]" by simp
  from ex_mset_zip_left [OF this assms]
  obtain ts where ts: "length ts = length xs'" "mset (zip xs' ts) = mset (zip xs [0..<?n])"
    by blast
  have "map snd (zip xs' ts) = ts" using ts(1) by (simp add: map_snd_zip)
  then have "mset ts = image_mset snd (mset (zip xs' ts))"
    by (metis mset_map)
  also have "\<dots> = image_mset snd (mset (zip xs [0..<?n]))" by (simp only: ts(2))
  also have "\<dots> = mset (map snd (zip xs [0..<?n]))" by (simp only: mset_map)
  finally have "mset ts = mset (map snd (zip xs [0..<?n]))" .
  moreover have "map snd (zip xs [0..<?n]) = [0..<?n]" by (simp add: map_snd_zip)
  ultimately have "mset ts = mset [0..<?n]" by (simp only:)
  then have d: "distinct ts" using mset_eq_imp_distinct_iff distinct_upt by blast
  have m: "ts ! e < ?n \<and> xs ! (ts ! e) = xs' ! e" if "e < ?n" for e
  proof -
    have "zip xs' ts ! e = (xs' ! e, ts ! e)" using that len ts(1) by simp
    moreover have "e < length (zip xs' ts)" using that len ts(1) by simp
    ultimately have "(xs' ! e, ts ! e) \<in> set (zip xs' ts)" by (metis nth_mem)
    moreover have "set (zip xs' ts) = set (zip xs [0..<?n])"
      using ts(2) by (rule mset_eq_setD)
    ultimately have "(xs' ! e, ts ! e) \<in> set (zip xs [0..<?n])" by simp
    then obtain i where "i < ?n" "xs ! i = xs' ! e" "[0..<?n] ! i = ts ! e"
      by (auto simp: in_set_zip)
    then show ?thesis by simp
  qed
  show ?thesis
  proof (intro exI [of _ ts] conjI allI impI)
    show "length ts = ?n" using ts(1) len by simp
    show "distinct ts" by (rule d)
  qed (use m in blast)+
qed

lemma model_of_trail:
  assumes enc: "encode adj = Inr (s, k)" and q: "q \<noteq> []" and u: "usteps q = graph adj"
  shows "\<exists>m. satisfies m s"
proof -
  let ?es = "edge_occurrences adj"
  have k: "k = length ?es" using encode_Inr_eq [OF enc] by simp
  have "size (usteps q) = k" using u k by (simp add: graph_def)
  then have lq: "length q = k + 1" using q by (cases q) (simp_all add: size_usteps)
  then have ls: "length (steps q) = k" by (simp add: steps_def)
  let ?xs = "map ends (steps q)" and ?xs' = "map edge_ends ?es"
  have "mset ?xs' = mset ?xs"
    using u usteps_steps [of q] by (simp add: graph_def)
  from matching_slots [OF this] obtain ts where
    ts: "length ts = k" "distinct ts"
        "\<forall>e<k. ts ! e < k \<and> ?xs ! (ts ! e) = ?xs' ! e"
    using ls by auto
  define m where "m = \<lparr>P_of = (\<lambda>i. q ! nat i), t_of = (\<lambda>e. int (ts ! nat e))\<rparr>"
  have A: "holds m (edge_constraint e (fst (?es ! e)) (snd (?es ! e)))" if e: "e < k" for e
  proof -
    from ts(3) e have i: "ts ! e < k" and eq: "?xs ! (ts ! e) = ?xs' ! e" by simp_all
    have "steps q ! (ts ! e) = (q ! (ts ! e), q ! (ts ! e + 1))"
      using i lq by (intro steps_nth) simp
    with eq i e ls k have "{q ! (ts ! e), q ! (ts ! e + 1)} = {int (fst (?es ! e)), int (snd (?es ! e))}"
      by (simp add: ends_def edge_ends_def)
    moreover have "nat (int (ts ! e) + 1) = ts ! e + 1" by simp
    ultimately show ?thesis
      by (simp add: holds_edge_constraint m_def doubleton_eq_iff)
  qed
  have B: "t_of m (int i) \<le> int k - 1 \<and> 0 \<le> t_of m (int i) \<and>
        (\<forall>j<k. i \<noteq> j \<longrightarrow> t_of m (int i) \<noteq> t_of m (int j))" if i: "i < k" for i
  proof -
    from ts(3) i have "ts ! i < k" by simp
    moreover have "ts ! i \<noteq> ts ! j" if "j < k" "i \<noteq> j" for j
      using that i ts(1,2) by (simp add: nth_eq_iff_index_eq)
    ultimately show ?thesis by (simp add: m_def)
  qed
  have "satisfies m s"
    unfolding satisfies_encode [OF enc] using A B by blast
  then show ?thesis ..
qed

lemma edge_occurrences_bounds:
  assumes "(a, b) \<in> set (edge_occurrences adj)"
  shows "a \<le> b \<and> b < length adj"
proof (rule ccontr)
  assume "\<not> ?thesis"
  then have "count_list (edge_occurrences adj) (a, b) = 0"
    by (auto simp: count_list_edge_occurrences)
  with assms show False by (simp add: count_list_0_iff)
qed

lemma deg_edge_list:
  "deg (image_mset edge_ends (mset es)) x =
     (if 0 \<le> x
      then length (filter (\<lambda>e. fst e = nat x) es) + length (filter (\<lambda>e. snd e = nat x) es)
      else 0)"
proof (induction es)
  case Nil
  show ?case by simp
next
  case (Cons e es)
  obtain a b where e: "e = (a, b)" by (cases e)
  have "(if x \<in> edge_ends e then 1 else 0) + (if edge_ends e = {x} then 1 else (0::nat)) =
        (if 0 \<le> x then (if a = nat x then 1 else 0) + (if b = nat x then 1 else 0) else 0)"
    by (auto simp: e edge_ends_def)
  then show ?case using Cons by (simp add: deg_add_mset e)
qed

lemma deg_graph: "deg (graph adj) (int v) = degree adj v"
  by (simp add: graph_def degree_def deg_edge_list)

lemma degree_pos_bound: "0 < degree adj v \<Longrightarrow> v < length adj"
proof -
  assume "0 < degree adj v"
  then have "filter (\<lambda>e. fst e = v) (edge_occurrences adj) \<noteq> [] \<or>
             filter (\<lambda>e. snd e = v) (edge_occurrences adj) \<noteq> []"
    by (auto simp: degree_def)
  then obtain e where "e \<in> set (edge_occurrences adj)" "fst e = v \<or> snd e = v"
    by (auto simp: filter_empty_conv)
  then show ?thesis using edge_occurrences_bounds [of "fst e" "snd e" adj] by auto
qed

lemma odd_set_graph: "{x. odd (deg (graph adj) x)} = int ` set (odd_vertices adj)"
proof (rule set_eqI)
  fix x
  show "x \<in> {x. odd (deg (graph adj) x)} \<longleftrightarrow> x \<in> int ` set (odd_vertices adj)"
  proof (cases "0 \<le> x")
    case True
    then obtain v where x: "x = int v" using nonneg_int_cases by blast
    have "odd (degree adj v) \<Longrightarrow> v < length adj"
      by (rule degree_pos_bound) (auto intro: Nat.gr0I)
    then show ?thesis by (auto simp: x deg_graph odd_vertices_def)
  next
    case False
    then have "deg (graph adj) x = 0" by (simp add: graph_def deg_edge_list)
    with False show ?thesis by auto
  qed
qed

lemma card_odd_set: "card {x. odd (deg (graph adj) x)} = length (odd_vertices adj)"
proof -
  have "distinct (odd_vertices adj)" by (simp add: odd_vertices_def)
  then have "card (set (odd_vertices adj)) = length (odd_vertices adj)"
    by (rule distinct_card)
  then show ?thesis by (simp add: odd_set_graph card_image)
qed

lemma pairs_graph: "pairs (graph adj)"
  by (auto simp: pairs_def graph_def edge_ends_def)

lemma adjrel_graph:
  "(x, y) \<in> adjrel (graph adj) \<longleftrightarrow> (\<exists>u v. x = int u \<and> y = int v \<and> (u, v) \<in> adjacent adj)"
proof
  assume "(x, y) \<in> adjrel (graph adj)"
  then obtain e where e: "e \<in> set (edge_occurrences adj)" "{x, y} = edge_ends e"
    by (auto simp: adjrel_def graph_def)
  then have "(x = int (fst e) \<and> y = int (snd e)) \<or> (x = int (snd e) \<and> y = int (fst e))"
    by (simp add: edge_ends_def doubleton_eq_iff)
  moreover have "(fst e, snd e) \<in> adjacent adj" "(snd e, fst e) \<in> adjacent adj"
    using e(1) by (simp_all add: adjacent_def)
  ultimately show "\<exists>u v. x = int u \<and> y = int v \<and> (u, v) \<in> adjacent adj" by blast
next
  assume "\<exists>u v. x = int u \<and> y = int v \<and> (u, v) \<in> adjacent adj"
  then obtain u v where uv: "x = int u" "y = int v" "(u, v) \<in> adjacent adj" by blast
  then have "(u, v) \<in> set (edge_occurrences adj) \<or> (v, u) \<in> set (edge_occurrences adj)"
    by (simp add: adjacent_def)
  then have "{int u, int v} \<in> edge_ends ` set (edge_occurrences adj)"
  proof
    assume "(u, v) \<in> set (edge_occurrences adj)"
    then have "edge_ends (u, v) \<in> edge_ends ` set (edge_occurrences adj)" by (rule imageI)
    then show ?thesis by (simp add: edge_ends_def)
  next
    assume "(v, u) \<in> set (edge_occurrences adj)"
    then have "edge_ends (v, u) \<in> edge_ends ` set (edge_occurrences adj)" by (rule imageI)
    then show ?thesis by (simp add: edge_ends_def insert_commute)
  qed
  then show "(x, y) \<in> adjrel (graph adj)" by (simp add: adjrel_def graph_def uv)
qed

lemma reach_int:
  "(u, v) \<in> (adjacent adj)\<^sup>* \<Longrightarrow> (int u, int v) \<in> (adjrel (graph adj))\<^sup>*"
proof (induction rule: rtrancl_induct)
  case base
  show ?case by simp
next
  case (step y z)
  then have "(int y, int z) \<in> adjrel (graph adj)" by (auto simp: adjrel_graph)
  with step.IH show ?case by (rule rtrancl_into_rtrancl)
qed

lemma reach_nat:
  "(x, y) \<in> (adjrel (graph adj))\<^sup>* \<Longrightarrow> x = int u \<Longrightarrow>
   \<exists>v. y = int v \<and> (u, v) \<in> (adjacent adj)\<^sup>*"
proof (induction rule: rtrancl_induct)
  case base
  then show ?case by blast
next
  case (step y z)
  then obtain v where v: "y = int v" "(u, v) \<in> (adjacent adj)\<^sup>*" by blast
  from step.hyps(2) v(1) obtain w where w: "z = int w" "(v, w) \<in> adjacent adj"
    by (auto simp: adjrel_graph)
  from v(2) w(2) have "(u, w) \<in> (adjacent adj)\<^sup>*" by (rule rtrancl_into_rtrancl)
  with w(1) show ?case by blast
qed

lemma adjacent_sym: "(u, v) \<in> adjacent adj \<Longrightarrow> (v, u) \<in> adjacent adj"
  by (auto simp: adjacent_def)

lemma econn_graph: "econn (graph adj) \<longleftrightarrow> edges_connected adj"
proof
  assume ec: "econn (graph adj)"
  show "edges_connected adj"
    unfolding edges_connected_def
  proof (intro ballI)
    fix e1 e2
    assume e: "e1 \<in> set (edge_occurrences adj)" "e2 \<in> set (edge_occurrences adj)"
    then have "edge_ends e1 \<in># graph adj" "edge_ends e2 \<in># graph adj"
      by (simp_all add: graph_def)
    moreover have "int (fst e1) \<in> edge_ends e1" "int (fst e2) \<in> edge_ends e2"
      by (simp_all add: edge_ends_def)
    ultimately have "(int (fst e1), int (fst e2)) \<in> (adjrel (graph adj))\<^sup>*"
      using ec unfolding econn_def by blast
    from reach_nat [OF this refl] show "(fst e1, fst e2) \<in> (adjacent adj)\<^sup>*" by simp
  qed
next
  assume ec: "edges_connected adj"
  have near: "(fst f, u) \<in> (adjacent adj)\<^sup>* \<and> (u, fst f) \<in> (adjacent adj)\<^sup>*"
    if "f \<in> set (edge_occurrences adj)" "int u \<in> edge_ends f" for f u
  proof (cases "u = fst f")
    case True
    then show ?thesis by simp
  next
    case False
    with that(2) have "u = snd f" by (simp add: edge_ends_def)
    moreover have "(fst f, snd f) \<in> adjacent adj" using that(1) by (simp add: adjacent_def)
    ultimately show ?thesis using adjacent_sym by blast
  qed
  show "econn (graph adj)"
    unfolding econn_def
  proof (intro ballI)
    fix e1 e2 x y
    assume "e1 \<in># graph adj" "e2 \<in># graph adj" and xy: "x \<in> e1" "y \<in> e2"
    then obtain f1 f2 where f: "f1 \<in> set (edge_occurrences adj)" "e1 = edge_ends f1"
        "f2 \<in> set (edge_occurrences adj)" "e2 = edge_ends f2"
      by (auto simp: graph_def)
    from xy f obtain u v where uv: "x = int u" "y = int v"
      by (auto simp: edge_ends_def)
    have "(u, fst f1) \<in> (adjacent adj)\<^sup>*" using near [OF f(1)] xy(1) f(2) uv(1) by simp
    moreover have "(fst f1, fst f2) \<in> (adjacent adj)\<^sup>*"
      using ec f(1,3) by (simp add: edges_connected_def)
    moreover have "(fst f2, v) \<in> (adjacent adj)\<^sup>*" using near [OF f(3)] xy(2) f(4) uv(2) by simp
    ultimately have "(u, v) \<in> (adjacent adj)\<^sup>*" by (meson rtrancl_trans)
    then show "(x, y) \<in> (adjrel (graph adj))\<^sup>*" unfolding uv by (rule reach_int)
  qed
qed

lemma connected_edges_connected: "connected adj \<Longrightarrow> edges_connected adj"
  unfolding connected_def edges_connected_def
proof (intro ballI)
  fix e1 e2
  assume c: "\<forall>u<length adj. \<forall>v<length adj. (u, v) \<in> (adjacent adj)\<^sup>*"
    and e: "e1 \<in> set (edge_occurrences adj)" "e2 \<in> set (edge_occurrences adj)"
  have "fst e1 < length adj" using edge_occurrences_bounds [of "fst e1" "snd e1" adj] e(1) by simp
  moreover have "fst e2 < length adj" using edge_occurrences_bounds [of "fst e2" "snd e2" adj] e(2) by simp
  ultimately show "(fst e1, fst e2) \<in> (adjacent adj)\<^sup>*" using c by blast
qed

lemma satisfiable_iff:
  assumes enc: "encode adj = Inr (s, k)"
  shows "(\<exists>m. satisfies m s) \<longleftrightarrow>
         edges_connected adj \<and> (length (odd_vertices adj) = 0 \<or> length (odd_vertices adj) = 2)"
proof
  assume "\<exists>m. satisfies m s"
  then obtain m where m: "satisfies m s" ..
  let ?p = "sequence m k"
  have ne: "?p \<noteq> []" by (simp add: sequence_def)
  have u: "usteps ?p = graph adj"
    using coverage_facts(3) [OF enc m] by (simp add: usteps_steps graph_def)
  from trail_necessary [OF ne u]
  have ec: "econn (graph adj)"
    and os: "{v. odd (deg (graph adj) v)} = (if hd ?p = last ?p then {} else {hd ?p, last ?p})"
    by simp_all
  have "card {v. odd (deg (graph adj) v)} = 0 \<or> card {v. odd (deg (graph adj) v)} = 2"
    unfolding os by (cases "hd ?p = last ?p") simp_all
  with ec show "edges_connected adj \<and>
      (length (odd_vertices adj) = 0 \<or> length (odd_vertices adj) = 2)"
    by (simp add: econn_graph card_odd_set)
next
  assume a: "edges_connected adj \<and>
      (length (odd_vertices adj) = 0 \<or> length (odd_vertices adj) = 2)"
  then have ec: "econn (graph adj)" by (simp add: econn_graph)
  let ?O = "{v. odd (deg (graph adj) v)}"
  have fin: "finite ?O" by (simp add: odd_set_graph)
  from a have "card ?O = 0 \<or> card ?O = 2" by (simp add: card_odd_set)
  then have "\<exists>q. q \<noteq> [] \<and> usteps q = graph adj"
  proof
    assume "card ?O = 0"
    with fin have "?O = {}" by simp
    then have "\<forall>v. even (deg (graph adj) v)" by blast
    from euler_circuit [OF pairs_graph ec this] show ?thesis by blast
  next
    assume "card ?O = 2"
    then obtain a b where "?O = {a, b}" "a \<noteq> b" by (auto simp: card_2_iff)
    from euler_trail_two_odd [OF pairs_graph ec this] show ?thesis .
  qed
  then obtain q where "q \<noteq> []" "usteps q = graph adj" by blast
  from model_of_trail [OF enc this] show "\<exists>m. satisfies m s" .
qed

lemma scenario_C_degrees:
  "map (degree scenario_C) [0..<6] = [2, 5, 2, 6, 3, 2] \<and> odd_vertices scenario_C = [1, 4]"
  by code_simp

section \<open>The claims\<close>

text \<open>
  Claim C3. Whenever the encoder finishes, the asserted list is exactly: for each edge
  occurrence \<open>e\<close> with endpoints \<open>(u, v)\<close>, in order, the disjunction
  \<open>(P(t(e)) = u \<and> P(t(e)+1) = v) \<or> (P(t(e)) = v \<and> P(t(e)+1) = u)\<close>; then, for each
  edge index \<open>i\<close>, the bounds \<open>t(i) \<le> k - 1\<close> and \<open>t(i) \<ge> 0\<close> followed by
  \<open>t(i) \<noteq> t(j)\<close> for every other edge index \<open>j\<close>. Nothing else is asserted.
\<close>

theorem encoder_asserts_exactly:
  assumes "encode adj = Inr (s, k)"
  shows "k = length (edge_occurrences adj) \<and>
    s = map (\<lambda>e. edge_constraint e (fst (edge_occurrences adj ! e)) (snd (edge_occurrences adj ! e)))
            [0..<k]
        @ concat (map (\<lambda>i. [Le (tapp (IntVal (int i))) (IntVal (int k - 1)),
                            Ge (tapp (IntVal (int i))) (IntVal 0)]
                           @ map (\<lambda>j. Ne (tapp (IntVal (int i))) (tapp (IntVal (int j))))
                                 (filter (\<lambda>j. i \<noteq> j) [0..<k]))
                      [0..<k]) \<and>
    (\<forall>m e u v. holds m (edge_constraint e u v) =
       ((eval m (Papp (tapp (IntVal (int e)))) = int u \<and>
         eval m (Papp (Add (tapp (IntVal (int e))) (IntVal 1))) = int v) \<or>
        (eval m (Papp (tapp (IntVal (int e)))) = int v \<and>
         eval m (Papp (Add (tapp (IntVal (int e))) (IntVal 1))) = int u)))"
proof -
  have k: "k = length (edge_occurrences adj)"
    and s: "s = occ_from 0 (edge_occurrences adj) @ t_assertions k"
    using encode_Inr_eq [OF assms] by simp_all
  have t: "t_assertions k = concat (map (\<lambda>i. [Le (tapp (IntVal (int i))) (IntVal (int k - 1)),
                            Ge (tapp (IntVal (int i))) (IntVal 0)]
                           @ map (\<lambda>j. Ne (tapp (IntVal (int i))) (tapp (IntVal (int j))))
                                 (filter (\<lambda>j. i \<noteq> j) [0..<k]))
                      [0..<k])"
    unfolding t_assertions_def t_row_def ..
  have h: "\<forall>m e u v. holds m (edge_constraint e u v) =
       ((eval m (Papp (tapp (IntVal (int e)))) = int u \<and>
         eval m (Papp (Add (tapp (IntVal (int e))) (IntVal 1))) = int v) \<or>
        (eval m (Papp (tapp (IntVal (int e)))) = int v \<and>
         eval m (Papp (Add (tapp (IntVal (int e))) (IntVal 1))) = int u))"
    by (simp add: edge_constraint_def)
  show ?thesis
    using k s t h occ_from_0_map [of "edge_occurrences adj"] by simp
qed

theorem encoder_asserts_exactly_witness:
  "encode [[0, 1], [1, 0]] =
     Inr ([edge_constraint 0 0 1,
           Le (tapp (IntVal 0)) (IntVal 0), Ge (tapp (IntVal 0)) (IntVal 0)], 1) \<and>
   1 = length (edge_occurrences [[0, 1], [1, 0]])"
proof -
  have e: "encode [[0, 1], [1, 0]] =
     Inr ([edge_constraint 0 0 1,
           Le (tapp (IntVal 0)) (IntVal 0), Ge (tapp (IntVal 0)) (IntVal 0)], 1)"
    by code_simp
  from encoder_asserts_exactly [OF e, THEN conjunct1] e show ?thesis by blast
qed

text \<open>
  Claim C4. For an n-by-n matrix the edge constraints appear for the edge occurrences
  obtained by scanning the upper triangle \<open>i \<le> j\<close> in scan order, one occurrence per
  unit of multiplicity, and the final counter \<open>k\<close> is their number: the sum of the
  upper-triangle entries (each read with \<open>nat\<close>, which changes nothing when the entries
  are non-negative), diagonal entries counted at face value.
\<close>

theorem loader_edge_count:
  assumes "square adj"
  shows "encode adj =
           Inr (map (\<lambda>e. edge_constraint e (fst (edge_occurrences adj ! e))
                                           (snd (edge_occurrences adj ! e)))
                    [0..<length (edge_occurrences adj)]
                @ t_assertions (length (edge_occurrences adj)),
                length (edge_occurrences adj)) \<and>
         length (edge_occurrences adj) =
           (\<Sum>i = 0..<length adj. \<Sum>j = i..<length adj. nat (entry adj i j)) \<and>
         ((\<forall>i<length adj. \<forall>j<length adj. i \<le> j \<longrightarrow> 0 \<le> entry adj i j) \<longrightarrow>
          int (length (edge_occurrences adj)) =
            (\<Sum>i = 0..<length adj. \<Sum>j = i..<length adj. entry adj i j))"
proof -
  have 1: "encode adj =
           Inr (map (\<lambda>e. edge_constraint e (fst (edge_occurrences adj ! e))
                                           (snd (edge_occurrences adj ! e)))
                    [0..<length (edge_occurrences adj)]
                @ t_assertions (length (edge_occurrences adj)),
                length (edge_occurrences adj))"
    using encode_wide [OF square_wide [OF assms]] by (simp add: occ_from_0_map)
  have 3: "int (length (edge_occurrences adj)) =
            (\<Sum>i = 0..<length adj. \<Sum>j = i..<length adj. entry adj i j)"
    if nn: "\<forall>i<length adj. \<forall>j<length adj. i \<le> j \<longrightarrow> 0 \<le> entry adj i j"
  proof -
    have "int (length (edge_occurrences adj)) =
        (\<Sum>i = 0..<length adj. \<Sum>j = i..<length adj. int (nat (entry adj i j)))"
      by (simp add: length_edge_occurrences)
    also have "\<dots> = (\<Sum>i = 0..<length adj. \<Sum>j = i..<length adj. entry adj i j)"
      using nn by (intro sum.cong refl) simp
    finally show ?thesis .
  qed
  show ?thesis using 1 3 length_edge_occurrences [of adj] by blast
qed

theorem loader_edge_count_witness:
  "square [[0, 1], [1, 2]] \<and>
   edge_occurrences [[0, 1], [1, 2]] = [(0, 1), (1, 1), (1, 1)] \<and>
   int (length (edge_occurrences [[0, 1], [1, 2]])) = 0 + 1 + 2"
proof -
  have sq: "square [[0, 1], [1, 2]]" by (simp add: square_def)
  have nn: "\<forall>i<length [[0, 1], [1, 2 :: 64 word]]. \<forall>j<length [[0, 1], [1, 2 :: 64 word]].
        i \<le> j \<longrightarrow> 0 \<le> entry [[0, 1], [1, 2]] i j"
    by (simp add: entry_def less_Suc_eq all_conj_distrib numeral_2_eq_2)
  have su: "(\<Sum>i = 0..<length [[0, 1], [1, 2 :: 64 word]].
              \<Sum>j = i..<length [[0, 1], [1, 2 :: 64 word]]. entry [[0, 1], [1, 2]] i j) = 0 + 1 + 2"
    by (simp add: entry_def numeral_2_eq_2)
  have eo: "edge_occurrences [[0, 1], [1, 2]] = [(0, 1), (1, 1), (1, 1)]"
    by code_simp
  from loader_edge_count [OF sq] nn
  have "int (length (edge_occurrences [[0, 1], [1, 2]])) =
      (\<Sum>i = 0..<length [[0, 1], [1, 2 :: 64 word]].
          \<Sum>j = i..<length [[0, 1], [1, 2 :: 64 word]]. entry [[0, 1], [1, 2]] i j)"
    by blast
  with su sq eo show ?thesis by simp
qed



text \<open>
  Claim C10, as amended. Two matrices with the same number of rows whose reads agree on
  the upper triangle \<open>i \<le> j\<close> give the same encoder result (the same asserted list and
  the same \<open>k\<close>, or the same error), hence, for any solver, the same ending of the run:
  the same verdict and the same decoded path. The encoder and the decoder never read an
  entry strictly below the diagonal; such an entry reaches the output only through the
  matrix printed at the start.
\<close>

theorem lower_triangle_unread:
  assumes "length adj = length adj'"
    and "\<forall>i j. i \<le> j \<and> j < length adj \<longrightarrow> at adj i j = at adj' i j"
  shows "encode adj = encode adj' \<and> ending (main solve adj) = ending (main solve adj')"
proof -
  have "encode adj = encode adj'"
  proof (cases "adj = []")
    case True
    with assms(1) show ?thesis by simp
  next
    case False
    with assms(1) have ne: "adj' \<noteq> []" by auto
    have "i_loop adj (length adj) [0..<length adj] ([], 0) =
          i_loop adj' (length adj) [0..<length adj] ([], 0)"
      using assms(2) by (intro i_loop_cong) simp
    then show ?thesis
      using assms(1) False ne by (simp add: encode_def shape0_def)
  qed
  then show ?thesis by (simp add: after_print_def)
qed

theorem lower_triangle_unread_witness:
  "length [[0, 1], [1, 0 :: 64 word]] = length [[0, 1], [7, 0 :: 64 word]] \<and>
   encode [[0, 1], [1, 0]] = encode [[0, 1], [7, 0]] \<and>
   ending (main example_solver [[0, 1], [1, 0]]) = ending (main example_solver [[0, 1], [7, 0]])"
proof -
  have l: "length [[0, 1], [1, 0 :: 64 word]] = length [[0, 1], [7, 0 :: 64 word]]" by simp
  have a: "\<forall>i j. i \<le> j \<and> j < length [[0, 1], [1, 0 :: 64 word]] \<longrightarrow>
      at [[0, 1], [1, 0]] i j = at [[0, 1], [7, 0]] i j"
    by (auto simp: at_def entry_def less_Suc_eq numeral_2_eq_2)
  from lower_triangle_unread [OF l a, of example_solver] l show ?thesis by blast
qed

text \<open>
  Claim C10 as stated fails: the two matrices below have the same upper triangle, and
  the runs on them differ, in the matrix printed by \<^verbatim>\<open>print(adj)\<close>.
\<close>

theorem lower_triangle_counterexample:
  "at [[0, 1], [1, 0]] 0 0 = at [[0, 1], [7, 0]] 0 0 \<and>
   at [[0, 1], [1, 0]] 0 1 = at [[0, 1], [7, 0]] 0 1 \<and>
   at [[0, 1], [1, 0]] 1 1 = at [[0, 1], [7, 0]] 1 1 \<and>
   printed (main example_solver [[0, 1], [1, 0]]) = [[0, 1], [1, 0]] \<and>
   printed (main example_solver [[0, 1], [7, 0]]) = [[0, 1], [7, 0]] \<and>
   main example_solver [[0, 1], [1, 0]] \<noteq> main example_solver [[0, 1], [7, 0]]"
proof -
  have 1: "printed (main example_solver [[0, 1], [1, 0]]) = [[0, 1], [1, 0]]"
    by (simp add: main_def echo_def)
  have 2: "printed (main example_solver [[0, 1], [7, 0]]) = [[0, 1], [7, 0]]"
    by (simp add: main_def echo_def)
  have "[[0, 1], [1, 0 :: 64 word]] \<noteq> [[0, 1], [7, 0]]" by simp
  with 1 2 have "main example_solver [[0, 1], [1, 0]] \<noteq> main example_solver [[0, 1], [7, 0]]"
    by metis
  with 1 2 show ?thesis by (simp add: at_def entry_def)
qed

text \<open>
  Claim C1. Whenever the encoder finishes and the model satisfies the asserted list, the
  decoding loop returns the sequence \<open>P(0..k)\<close> (when there is an edge; with no edge it
  raises instead and there is nothing to traverse), and this sequence traverses every edge occurrence exactly once: \<open>t\<close> maps
  the edge indices one-to-one onto the \<open>k\<close> slots, the adjacent pair at slot
  \<open>t(e)\<close> joins the endpoints of occurrence \<open>e\<close> (in one of the two directions),
  every slot is the slot of exactly one occurrence, and the adjacent pairs of the path,
  read as unordered pairs, are exactly the edge occurrences with their multiplicities.
\<close>
theorem euler_coverage:
  assumes "encode adj = Inr (s, k)" and "satisfies m s"
  shows "k = length (edge_occurrences adj) \<and>
         results (get_model s m) k =
           (if 0 < k then Inr (sequence m k) else Inl AttributeError) \<and>
         length (steps (sequence m k)) = k \<and>
         bij_betw (slot m) {..<k} {..<k} \<and>
         (\<forall>e<k. t_of m (int e) = int (slot m e) \<and>
                ends (steps (sequence m k) ! slot m e) = edge_ends (edge_occurrences adj ! e)) \<and>
         (\<forall>i<k. \<exists>!e. e < k \<and> slot m e = i) \<and>
         image_mset ends (mset (steps (sequence m k))) =
           image_mset edge_ends (mset (edge_occurrences adj))"
proof -
  let ?es = "edge_occurrences adj"
  have k: "k = length ?es" using encode_Inr_eq [OF assms(1)] by simp
  from assms have A: "\<forall>e<k. holds m (edge_constraint e (fst (?es ! e)) (snd (?es ! e)))"
    and B: "\<forall>i<k. t_of m (int i) \<le> int k - 1 \<and> 0 \<le> t_of m (int i) \<and>
        (\<forall>j<k. i \<noteq> j \<longrightarrow> t_of m (int i) \<noteq> t_of m (int j))"
    by (simp_all add: satisfies_encode)
  have bij: "bij_betw (slot m) {..<k} {..<k}" by (rule slot_bij [OF B])
  have lt: "\<forall>e<k. slot m e < k" using bij by (auto simp: bij_betw_def)
  have E: "\<forall>e<k. t_of m (int e) = int (slot m e) \<and>
       ends (steps (sequence m k) ! slot m e) = edge_ends (?es ! e)"
  proof (intro allI impI conjI)
    fix e assume e: "e < k"
    show "t_of m (int e) = int (slot m e)" using B e by (simp add: slot_def)
    show "ends (steps (sequence m k) ! slot m e) = edge_ends (?es ! e)"
      using slot_edge [of m e "fst (?es ! e)" "snd (?es ! e)" k] A B lt e by simp
  qed
  have U: "\<forall>i<k. \<exists>!e. e < k \<and> slot m e = i"
  proof (intro allI impI)
    fix i assume "i < k"
    then have "i \<in> slot m ` {..<k}" using bij by (simp add: bij_betw_def)
    then obtain e where "e < k" "slot m e = i" by auto
    moreover have "\<And>e'. e' < k \<Longrightarrow> slot m e' = i \<Longrightarrow> e' = e"
      using bij calculation by (auto simp: bij_betw_def inj_on_def)
    ultimately show "\<exists>!e. e < k \<and> slot m e = i" by blast
  qed
  have M: "image_mset ends (mset (steps (sequence m k))) = image_mset edge_ends (mset ?es)"
    by (rule mset_via_bij [OF bij]) (use E k in simp_all)
  have R: "results (get_model s m) k =
      (if 0 < k then Inr (sequence m k) else Inl AttributeError)"
    by (rule results_encode [OF assms(1)])
  show ?thesis using k bij E U M R by simp
qed

theorem euler_coverage_witness:
  "encode triangle =
     Inr (occ_from 0 [(0, 1), (0, 2), (1, 2)] @ t_assertions 3, 3) \<and>
   satisfies triangle_model (occ_from 0 [(0, 1), (0, 2), (1, 2)] @ t_assertions 3) \<and>
   results (get_model (occ_from 0 [(0, 1), (0, 2), (1, 2)] @ t_assertions 3) triangle_model) 3 =
     Inr [0, 2, 1, 0] \<and>
   image_mset ends (mset (steps (sequence triangle_model 3))) =
     image_mset edge_ends (mset (edge_occurrences triangle))"
proof -
  have e: "encode triangle =
     Inr (occ_from 0 [(0, 1), (0, 2), (1, 2)] @ t_assertions 3, 3)"
    by code_simp
  have s: "satisfies triangle_model (occ_from 0 [(0, 1), (0, 2), (1, 2)] @ t_assertions 3)"
    by code_simp
  have q: "sequence triangle_model 3 = [0, 2, 1, 0]"
    by code_simp
  from euler_coverage [OF e s] q
  have r: "results (get_model (occ_from 0 [(0, 1), (0, 2), (1, 2)] @ t_assertions 3) triangle_model) 3 =
     Inr [0, 2, 1, 0]"
    by simp
  from euler_coverage [OF e s] e s r show ?thesis by blast
qed

text \<open>
  Claim C8. For a self-loop at \<open>v\<close> (a positive diagonal entry) the two disjuncts of
  the edge constraint are the same conjunction; whenever the encoder finishes and the
  model satisfies the asserted list, every occurrence of the loop has a slot of its own
  at which the decoded path (the sequence the decoding loop returns) reads \<open>v, v\<close>, and
  the path has exactly as many consecutive pairs \<open>(v, v)\<close> as the diagonal entry says.
\<close>

theorem self_loop_repeated_pair:
  assumes "encode adj = Inr (s, k)" and "satisfies m s"
    and "v < length adj" and "0 < entry adj v v"
  shows "(\<forall>e. edge_constraint e v v =
            Or (And (Eq (Papp (tapp (IntVal (int e)))) (IntVal (int v)))
                    (Eq (Papp (Add (tapp (IntVal (int e))) (IntVal 1))) (IntVal (int v))))
               (And (Eq (Papp (tapp (IntVal (int e)))) (IntVal (int v)))
                    (Eq (Papp (Add (tapp (IntVal (int e))) (IntVal 1))) (IntVal (int v))))) \<and>
         (v, v) \<in> set (edge_occurrences adj) \<and>
         results (get_model s m) k = Inr (sequence m k) \<and>
         (\<forall>e<k. edge_occurrences adj ! e = (v, v) \<longrightarrow>
                slot m e < k \<and>
                sequence m k ! slot m e = int v \<and> sequence m k ! (slot m e + 1) = int v) \<and>
         inj_on (slot m) {..<k} \<and>
         length (filter (\<lambda>p. p = (int v, int v)) (steps (sequence m k))) = nat (entry adj v v)"
proof -
  let ?es = "edge_occurrences adj"
  have k: "k = length ?es" using encode_Inr_eq [OF assms(1)] by simp
  from assms have A: "\<forall>e<k. holds m (edge_constraint e (fst (?es ! e)) (snd (?es ! e)))"
    and B: "\<forall>i<k. t_of m (int i) \<le> int k - 1 \<and> 0 \<le> t_of m (int i) \<and>
        (\<forall>j<k. i \<noteq> j \<longrightarrow> t_of m (int i) \<noteq> t_of m (int j))"
    by (simp_all add: satisfies_encode)
  have bij: "bij_betw (slot m) {..<k} {..<k}" by (rule slot_bij [OF B])
  have lt: "\<forall>e<k. slot m e < k" using bij by (auto simp: bij_betw_def)
  have 1: "\<forall>e. edge_constraint e v v =
            Or (And (Eq (Papp (tapp (IntVal (int e)))) (IntVal (int v)))
                    (Eq (Papp (Add (tapp (IntVal (int e))) (IntVal 1))) (IntVal (int v))))
               (And (Eq (Papp (tapp (IntVal (int e)))) (IntVal (int v)))
                    (Eq (Papp (Add (tapp (IntVal (int e))) (IntVal 1))) (IntVal (int v))))"
    by (simp add: edge_constraint_def)
  have cnt: "count_list ?es (v, v) = nat (entry adj v v)"
    using assms(3) by (simp add: count_list_edge_occurrences)
  then have 2: "(v, v) \<in> set ?es"
    using assms(4) by (metis count_list_0_iff nat_0_iff not_less)
  have 3: "\<forall>e<k. ?es ! e = (v, v) \<longrightarrow>
                slot m e < k \<and>
                sequence m k ! slot m e = int v \<and> sequence m k ! (slot m e + 1) = int v"
  proof (intro allI impI)
    fix e assume e: "e < k" and ev: "?es ! e = (v, v)"
    have t: "t_of m (int e) = int (slot m e)" using B e by (simp add: slot_def)
    have s: "slot m e < k" using lt e by simp
    from A e ev have "P_of m (int (slot m e)) = int v \<and> P_of m (int (slot m e) + 1) = int v"
      by (auto simp: holds_edge_constraint t)
    moreover have "sequence m k ! slot m e = P_of m (int (slot m e))"
      using s by (simp add: sequence_def nth_map_upt del: upt_Suc)
    moreover have "sequence m k ! (slot m e + 1) = P_of m (int (slot m e) + 1)"
      using s by (simp add: sequence_def nth_map_upt del: upt_Suc) (simp add: add.commute)
    ultimately show "slot m e < k \<and>
                sequence m k ! slot m e = int v \<and> sequence m k ! (slot m e + 1) = int v"
      using s by simp
  qed
  have 4: "inj_on (slot m) {..<k}" using bij by (simp add: bij_betw_def)
  have "length (filter (\<lambda>p. p = (int v, int v)) (steps (sequence m k))) =
      size (filter_mset (\<lambda>p. ends p = {int v}) (mset (steps (sequence m k))))"
    by (simp add: ends_singleton flip: mset_filter)
  also have "\<dots> = count (image_mset ends (mset (steps (sequence m k)))) {int v}"
    by (simp add: count_image_mset_filter)
  also have "\<dots> = count (image_mset edge_ends (mset ?es)) {int v}"
    by (simp only: coverage_facts(3) [OF assms(1,2)])
  also have "\<dots> = size (filter_mset (\<lambda>e. e = (v, v)) (mset ?es))"
    by (simp add: count_image_mset_filter edge_ends_singleton)
  also have "\<dots> = count_list ?es (v, v)"
    by (simp add: length_filter_count_list flip: mset_filter)
  finally have 5: "length (filter (\<lambda>p. p = (int v, int v)) (steps (sequence m k))) = nat (entry adj v v)"
    using cnt by simp
  have "0 < k" using 2 k by (cases ?es) auto
  then have 6: "results (get_model s m) k = Inr (sequence m k)"
    by (simp add: results_encode [OF assms(1)])
  show ?thesis using 1 2 3 4 5 6 by blast
qed

theorem self_loop_repeated_pair_witness:
  "encode [[0, 1], [1, 2]] =
     Inr (occ_from 0 [(0, 1), (1, 1), (1, 1)] @ t_assertions 3, 3) \<and>
   satisfies loop_model (occ_from 0 [(0, 1), (1, 1), (1, 1)] @ t_assertions 3) \<and>
   (1::nat) < length [[0, 1], [1, 2 :: 64 word]] \<and>
   (0::int) < entry [[0, 1], [1, 2]] 1 1 \<and>
   results (get_model (occ_from 0 [(0, 1), (1, 1), (1, 1)] @ t_assertions 3) loop_model) 3 =
     Inr [0, 1, 1, 1] \<and>
   length (filter (\<lambda>p. p = (int 1, int 1)) (steps (sequence loop_model 3))) =
     nat (entry [[0, 1], [1, 2]] 1 1)"
proof -
  have e: "encode [[0, 1], [1, 2]] =
     Inr (occ_from 0 [(0, 1), (1, 1), (1, 1)] @ t_assertions 3, 3)"
    by code_simp
  have s: "satisfies loop_model (occ_from 0 [(0, 1), (1, 1), (1, 1)] @ t_assertions 3)"
    by code_simp
  have l: "(1::nat) < length [[0, 1], [1, 2 :: 64 word]]" by simp
  have p: "(0::int) < entry [[0, 1], [1, 2]] 1 1" by (simp add: entry_def)
  have q: "sequence loop_model 3 = [0, 1, 1, 1]"
    by code_simp
  from self_loop_repeated_pair [OF e s l p] q
  have r: "results (get_model (occ_from 0 [(0, 1), (1, 1), (1, 1)] @ t_assertions 3) loop_model) 3 =
     Inr [0, 1, 1, 1]"
    by simp
  from self_loop_repeated_pair [OF e s l p] e s l p r show ?thesis by blast
qed

text \<open>
  Claim C5, as amended. The script validates nothing and has no InvalidGraph error. Of
  the matrices of 64-bit integers, encoding fails on those with a row shorter than the
  number of rows, and on no other: through the IndexError of the read \<open>adj[i,j]\<close> inside
  the first loop nest. Every other matrix is encoded and goes to the solver like a
  well-formed one: columns beyond the \<open>n\<close>-th and entries below the diagonal are not
  read, and a negative entry gives no edge occurrence.
\<close>

theorem no_input_validation:
  "encode adj =
     (if wide adj
      then Inr (occ_from 0 (edge_occurrences adj) @ t_assertions (length (edge_occurrences adj)),
                length (edge_occurrences adj))
      else Inl IndexError) \<and>
   (ending (main solve adj) = Raised e) = (e = IndexError \<and> \<not> wide adj) \<and>
   count_list (edge_occurrences adj) (a, b) =
     (if a \<le> b \<and> b < length adj then nat (entry adj a b) else 0)"
proof -
  have "encode adj =
     (if wide adj
      then Inr (occ_from 0 (edge_occurrences adj) @ t_assertions (length (edge_occurrences adj)),
                length (edge_occurrences adj))
      else Inl IndexError)"
    using encode_wide [of adj] encode_not_wide [of adj] by auto
  then show ?thesis
    using after_print_Raised_iff [of solve adj e] count_list_edge_occurrences [of adj a b]
    by simp
qed

theorem no_input_validation_witness:
  "encode [[0], [0]] = Inl IndexError \<and>
   ending (main example_solver [[0], [0]]) = Raised IndexError \<and>
   encode [] = Inl IndexError \<and>
   encode [[- 1, 1], [0, 0]] = Inr (occ_from 0 [(0, 1)] @ t_assertions 1, 1)"
proof -
  have w: "\<not> wide [[0], [0]]" by (simp add: wide_def)
  have w0: "\<not> wide []" by (simp add: wide_def)
  have w2: "wide [[- 1, 1], [0, 0]]" by (simp add: wide_def)
  have eo: "edge_occurrences [[- 1, 1], [0, 0]] = [(0, 1)]" by code_simp
  from no_input_validation [of "[[0], [0]]" example_solver IndexError] w
  have 1: "encode [[0], [0]] = Inl IndexError \<and>
      ending (main example_solver [[0], [0]]) = Raised IndexError"
    by simp
  from no_input_validation [of "[]"] w0
  have 0: "encode [] = Inl IndexError"
    by simp
  from no_input_validation [of "[[- 1, 1], [0, 0]]"] w2 eo
  have 2: "encode [[- 1, 1], [0, 0]] = Inr (occ_from 0 [(0, 1)] @ t_assertions 1, 1)"
    by simp
  from 0 1 2 show ?thesis by blast
qed

text \<open>
  Claim C5 as stated fails: a matrix with a negative entry and unequal off-diagonal
  entries, and a matrix that is not square, are each encoded, have a model, and are
  taken to a printed path.
\<close>

theorem invalid_graph_counterexample:
  "encode [[- 1, 1], [0, 0]] = Inr (occ_from 0 [(0, 1)] @ t_assertions 1, 1) \<and>
   satisfies example_model (occ_from 0 [(0, 1)] @ t_assertions 1) \<and>
   ending (main (const_solver sat (Some example_model)) [[- 1, 1], [0, 0]]) = Path sat [0, 1] \<and>
   encode [[0, 2, 9], [2, 0, 9]] = Inr (occ_from 0 [(0, 1), (0, 1)] @ t_assertions 2, 2) \<and>
   satisfies zigzag_model (occ_from 0 [(0, 1), (0, 1)] @ t_assertions 2) \<and>
   ending (main (const_solver sat (Some zigzag_model)) [[0, 2, 9], [2, 0, 9]]) =
     Path sat [0, 1, 0]"
proof -
  have 1: "encode [[- 1, 1], [0, 0]] = Inr (occ_from 0 [(0, 1)] @ t_assertions 1, 1)"
    by code_simp
  have 2: "satisfies example_model (occ_from 0 [(0, 1)] @ t_assertions 1)"
    by code_simp
  have 3: "after_print (const_solver sat (Some example_model)) [[- 1, 1], [0, 0]] =
      Path sat [0, 1]"
    by code_simp
  have 4: "encode [[0, 2, 9], [2, 0, 9]] =
      Inr (occ_from 0 [(0, 1), (0, 1)] @ t_assertions 2, 2)"
    by code_simp
  have 5: "satisfies zigzag_model (occ_from 0 [(0, 1), (0, 1)] @ t_assertions 2)"
    by code_simp
  have 6: "after_print (const_solver sat (Some zigzag_model)) [[0, 2, 9], [2, 0, 9]] =
      Path sat [0, 1, 0]"
    by code_simp
  from 1 2 3 4 5 6 show ?thesis by simp
qed

text \<open>
  Claim C6, as amended. After printing the matrix, a run ends in one of these ways: the
  IndexError of a too-short row; after the verdict \<open>unsat\<close>, an exit without a path;
  after any other verdict, \<open>sat\<close> and \<open>unknown\<close> alike, the request for the model, which
  ends the run with the solver's exception when there is none; otherwise the decoding
  loop, which ends the run with an AttributeError when the graph has no edge (nothing
  is asserted then, and the model leaves \<open>P\<close> uninterpreted) and otherwise prints the
  path decoded from the model. The verdict \<open>unknown\<close> has no branch of its own and
  differs from \<open>sat\<close> in the printed verdict only; malformed input has no outcome of
  its own.
\<close>

theorem run_outcomes:
  "(\<not> wide adj \<longrightarrow> ending (main solve adj) = Raised IndexError) \<and>
   (encode adj = Inr (s, k) \<longrightarrow>
      (solve s = (unsat, mo) \<longrightarrow> ending (main solve adj) = Exited unsat) \<and>
      (r \<noteq> unsat \<and> solve s = (r, None) \<longrightarrow> ending (main solve adj) = NoModel r) \<and>
      (r \<noteq> unsat \<and> solve s = (r, Some m) \<and> k = 0 \<longrightarrow>
         ending (main solve adj) = DecodeFailed r AttributeError) \<and>
      (r \<noteq> unsat \<and> solve s = (r, Some m) \<and> 0 < k \<longrightarrow>
         ending (main solve adj) = Path r (sequence m k)) \<and>
      (\<forall>e. ending (main solve adj) \<noteq> Raised e))"
proof -
  have 1: "\<not> wide adj \<longrightarrow> ending (main solve adj) = Raised IndexError"
    using after_print_Raised_iff [of solve adj IndexError] by simp
  have 2: "(solve s = (unsat, mo) \<longrightarrow> ending (main solve adj) = Exited unsat) \<and>
      (r \<noteq> unsat \<and> solve s = (r, None) \<longrightarrow> ending (main solve adj) = NoModel r) \<and>
      (r \<noteq> unsat \<and> solve s = (r, Some m) \<and> k = 0 \<longrightarrow>
         ending (main solve adj) = DecodeFailed r AttributeError) \<and>
      (r \<noteq> unsat \<and> solve s = (r, Some m) \<and> 0 < k \<longrightarrow>
         ending (main solve adj) = Path r (sequence m k)) \<and>
      (\<forall>e. ending (main solve adj) \<noteq> Raised e)"
    if e: "encode adj = Inr (s, k)"
    by (auto simp: after_print_encoded [OF e] split: prod.splits option.splits)
  from 1 2 show ?thesis by blast
qed

theorem run_outcomes_witness:
  "ending (main example_solver [[0], [0]]) = Raised IndexError \<and>
   encode [[0, 1], [1, 0]] = Inr (occ_from 0 [(0, 1)] @ t_assertions 1, 1) \<and>
   ending (main (const_solver unsat None) [[0, 1], [1, 0]]) = Exited unsat \<and>
   ending (main (const_solver unknown None) [[0, 1], [1, 0]]) = NoModel unknown \<and>
   ending (main (const_solver unknown (Some example_model)) [[0, 1], [1, 0]]) =
     Path unknown (sequence example_model 1) \<and>
   ending (main (const_solver sat (Some example_model)) [[0, 1], [1, 0]]) =
     Path sat (sequence example_model 1) \<and>
   encode [[0]] = Inr ([], 0) \<and>
   ending (main (const_solver sat (Some (const_model 0))) [[0]]) =
     DecodeFailed sat AttributeError"
proof -
  have w: "\<not> wide [[0], [0]]" by (simp add: wide_def)
  from run_outcomes [of "[[0], [0]]" example_solver] w
  have 0: "ending (main example_solver [[0], [0]]) = Raised IndexError" by blast
  have e: "encode [[0, 1], [1, 0]] = Inr (occ_from 0 [(0, 1)] @ t_assertions 1, 1)"
    by code_simp
  have u: "unknown \<noteq> unsat" "sat \<noteq> unsat" by simp_all
  from run_outcomes [of "[[0, 1], [1, 0]]" "const_solver unsat None" _ _ None] e
  have 1: "ending (main (const_solver unsat None) [[0, 1], [1, 0]]) = Exited unsat"
    by (simp add: const_solver_def)
  from run_outcomes [of "[[0, 1], [1, 0]]" "const_solver unknown None" _ _ _ unknown] e
  have 2: "ending (main (const_solver unknown None) [[0, 1], [1, 0]]) = NoModel unknown"
    by (simp add: const_solver_def)
  from run_outcomes [of "[[0, 1], [1, 0]]" "const_solver unknown (Some example_model)"
        _ _ _ unknown example_model] e
  have 3: "ending (main (const_solver unknown (Some example_model)) [[0, 1], [1, 0]]) =
     Path unknown (sequence example_model 1)"
    by (simp add: const_solver_def)
  from run_outcomes [of "[[0, 1], [1, 0]]" "const_solver sat (Some example_model)"
        _ _ _ sat example_model] e
  have 4: "ending (main (const_solver sat (Some example_model)) [[0, 1], [1, 0]]) =
     Path sat (sequence example_model 1)"
    by (simp add: const_solver_def)
  have e0: "encode [[0]] = Inr ([], 0)" by code_simp
  from run_outcomes [of "[[0]]" "const_solver sat (Some (const_model 0))" "[]" 0 _ sat
        "const_model 0"] e0
  have 5: "ending (main (const_solver sat (Some (const_model 0))) [[0]]) =
     DecodeFailed sat AttributeError"
    by (simp add: const_solver_def)
  from 0 e 1 2 3 4 e0 5 show ?thesis by blast
qed

text \<open>
  Claim C6 as stated fails: a matrix with a negative entry and an asymmetric matrix,
  each with an edge, end exactly as the well-formed matrix with the same upper triangle
  does, whatever the solver answers; and a verdict \<open>unknown\<close> that comes with a model
  ends in a printed path.
\<close>

theorem four_outcomes_counterexample:
  "(\<forall>solve. ending (main solve [[- 1, 1], [1, 0]]) = ending (main solve [[0, 1], [1, 0]])) \<and>
   (\<forall>solve. ending (main solve [[0, 1], [0, 0]]) = ending (main solve [[0, 1], [1, 0]])) \<and>
   ending (main (const_solver unknown (Some example_model)) [[0, 1], [1, 0]]) =
     Path unknown [0, 1]"
proof -
  have 1: "encode [[- 1, 1], [1, 0]] = encode [[0, 1], [1, 0]]" by code_simp
  have 2: "encode [[0, 1], [0, 0]] = encode [[0, 1], [1, 0]]" by code_simp
  have 3: "after_print (const_solver unknown (Some example_model)) [[0, 1], [1, 0]] =
      Path unknown [0, 1]"
    by code_simp
  from 1 2 3 show ?thesis by (simp add: after_print_def)
qed

text \<open>
  Claim C9. On the 1-by-1 zero matrix the script does not print the path \<open>[0]\<close>:
  nothing is asserted and \<open>k = 0\<close>, so the model of the verdict \<open>sat\<close> leaves \<open>P\<close>
  uninterpreted, \<^verbatim>\<open>m.evaluate(P(0))\<close> is the term \<open>P(0)\<close> itself, and
  \<^verbatim>\<open>.as_long()\<close> raises AttributeError in the first round of the decoding loop,
  whatever interpretation the solver found.
\<close>

theorem scenario_A_decode_fails:
  "encode [[0]] = Inr ([], 0) \<and>
   (\<forall>m. satisfies m []) \<and>
   (\<forall>m. results (get_model [] m) 0 = Inl AttributeError) \<and>
   (\<forall>m. ending (main (const_solver sat (Some m)) [[0]]) = DecodeFailed sat AttributeError)"
proof -
  have e: "encode [[0]] = Inr ([], 0)" by code_simp
  have r: "\<forall>m. results (get_model [] m) 0 = Inl AttributeError"
    using results_encode [OF e] by simp
  have "\<forall>m. after_print (const_solver sat (Some m)) [[0]] = DecodeFailed sat AttributeError"
    by (simp add: after_print_encoded [OF e] const_solver_def)
  with e r show ?thesis by (simp add: satisfies_def)
qed

text \<open>
  Claim C2. Whenever the encoder finishes, the asserted list has a model exactly when
  all edges of the graph lie in one connected component and the number of vertices of
  odd degree is 0 or 2 (a self-loop counting twice). Hence for a connected graph it has
  a model if and only if the number of odd-degree vertices is 0 or 2, and for a graph
  with edges in more than one connected component it has none.
\<close>

theorem parity_law:
  assumes "encode adj = Inr (s, k)"
  shows "(connected adj \<longrightarrow>
            ((\<exists>m. satisfies m s) \<longleftrightarrow>
             (length (odd_vertices adj) = 0 \<or> length (odd_vertices adj) = 2))) \<and>
         (\<not> edges_connected adj \<longrightarrow> \<not> (\<exists>m. satisfies m s)) \<and>
         ((\<exists>m. satisfies m s) \<longleftrightarrow>
            (edges_connected adj \<and>
             (length (odd_vertices adj) = 0 \<or> length (odd_vertices adj) = 2)))"
  using satisfiable_iff [OF assms] connected_edges_connected [of adj] by blast

theorem parity_law_witness:
  "encode triangle = Inr (occ_from 0 [(0, 1), (0, 2), (1, 2)] @ t_assertions 3, 3) \<and>
   connected triangle \<and>
   odd_vertices triangle = [] \<and>
   (\<exists>m. satisfies m (occ_from 0 [(0, 1), (0, 2), (1, 2)] @ t_assertions 3)) \<and>
   encode two_edges = Inr (occ_from 0 [(0, 1), (2, 3)] @ t_assertions 2, 2) \<and>
   \<not> edges_connected two_edges \<and>
   \<not> (\<exists>m. satisfies m (occ_from 0 [(0, 1), (2, 3)] @ t_assertions 2))"
proof -
  have e3: "encode triangle = Inr (occ_from 0 [(0, 1), (0, 2), (1, 2)] @ t_assertions 3, 3)"
    by code_simp
  have es3: "edge_occurrences triangle = [(0, 1), (0, 2), (1, 2)]" by code_simp
  have l3: "length triangle = 3" by (simp add: triangle_def)
  have c3: "connected triangle"
    unfolding connected_def l3 adjacent_def es3
    by (auto simp: less_Suc_eq numeral_3_eq_3)
  have o3: "odd_vertices triangle = []" by code_simp
  from parity_law [OF e3] c3 o3
  have s3: "\<exists>m. satisfies m (occ_from 0 [(0, 1), (0, 2), (1, 2)] @ t_assertions 3)"
    by simp
  have e2: "encode two_edges = Inr (occ_from 0 [(0, 1), (2, 3)] @ t_assertions 2, 2)"
    by code_simp
  have es2: "edge_occurrences two_edges = [(0, 1), (2, 3)]" by code_simp
  have inv: "y < 2" if "(0, y) \<in> (adjacent two_edges)\<^sup>*" for y
    using that
  proof (induction rule: rtrancl_induct)
    case base
    show ?case by simp
  next
    case (step y z)
    then show ?case by (auto simp: adjacent_def es2)
  qed
  have n2: "\<not> edges_connected two_edges"
  proof
    assume "edges_connected two_edges"
    then have "(fst (0, 1), fst (2, 3)) \<in> (adjacent two_edges)\<^sup>*"
      unfolding edges_connected_def es2 by simp
    then have "(0, 2) \<in> (adjacent two_edges)\<^sup>*" by simp
    from inv [OF this] show False by simp
  qed
  from parity_law [OF e2] n2
  have u2: "\<not> (\<exists>m. satisfies m (occ_from 0 [(0, 1), (2, 3)] @ t_assertions 2))"
    by blast
  from e3 c3 o3 s3 e2 n2 u2 show ?thesis by blast
qed

end
